theory Spec2Isabelle
  imports Main "HOL-Library.Word"
begin

section \<open>Python values used by gif.py\<close>

text \<open>
  The input of every function of gif.py is a \<^verbatim>\<open>bytes\<close> object: a sequence of integers
  in the range 0..255. Lengths, offsets, counters and byte values are never negative in
  gif.py, so they are natural numbers here; the one integer that can be negative is the
  result of \<^verbatim>\<open>bytes.find\<close>, which is an \<^typ>\<open>int\<close>.
\<close>

type_synonym byte = "8 word"

text \<open>
  gif.py declares no exception of its own and catches none while decoding: what can
  escape from its functions are the built-in exceptions raised by indexing, by
  \<^verbatim>\<open>int(s, base=2)\<close>, by reading an unbound local variable, by adding a string to a list
  and by the modulo operator.
\<close>

datatype error = IndexError | ValueError | NameError | TypeError | ZeroDivisionError

fun bind_err :: "error + 'a \<Rightarrow> ('a \<Rightarrow> error + 'b) \<Rightarrow> error + 'b" where
  "bind_err (Inl e) f = Inl e"
| "bind_err (Inr v) f = f v"

text \<open>\<^verbatim>\<open>xs[i:j]\<close> for \<open>0 \<le> i\<close>: a slice is clipped to the sequence and never raises.\<close>

definition slice :: "'a list \<Rightarrow> nat \<Rightarrow> nat \<Rightarrow> 'a list" where
  "slice xs i j = take (j - i) (drop i xs)"

text \<open>\<^verbatim>\<open>xs[i]\<close> for \<open>0 \<le> i\<close>: raises IndexError out of range.\<close>

definition item :: "'a list \<Rightarrow> nat \<Rightarrow> error + 'a" where
  "item xs i = (if i < length xs then Inr (xs ! i) else Inl IndexError)"

text \<open>\<^verbatim>\<open>int.from_bytes(bs, "little")\<close>; the empty sequence gives 0.\<close>

definition from_bytes_little :: "byte list \<Rightarrow> nat" where
  "from_bytes_little bs = foldr (\<lambda>b acc. unat b + 256 * acc) bs 0"

text \<open>\<^verbatim>\<open>bin(n)[2:]\<close>: the binary digits of \<open>n\<close> with no leading zero, \<^verbatim>\<open>"0"\<close> for 0.\<close>

fun bin_str :: "nat \<Rightarrow> string" where
  "bin_str n =
     (if n < 2 then [if n = 0 then CHR ''0'' else CHR ''1'']
      else bin_str (n div 2) @ [if n mod 2 = 0 then CHR ''0'' else CHR ''1''])"

declare bin_str.simps [simp del]

text \<open>
  The value of one binary digit character. Every string gif.py converts is made of the
  characters of \<^verbatim>\<open>bin\<close>, so \<^verbatim>\<open>int(c)\<close> of a single character is 0 or 1.
\<close>

definition int_of_bit :: "char \<Rightarrow> nat" where
  "int_of_bit c = (if c = CHR ''1'' then 1 else 0)"

text \<open>\<^verbatim>\<open>int(s, base=2)\<close> on a string of binary digits: the empty string raises ValueError.\<close>

definition int_base2 :: "string \<Rightarrow> error + nat" where
  "int_base2 s =
     (if s = [] then Inl ValueError else Inr (foldl (\<lambda>a c. 2 * a + int_of_bit c) 0 s))"

text \<open>\<^verbatim>\<open>int(s[i])\<close>: indexing a string raises IndexError out of range.\<close>

definition int_at :: "string \<Rightarrow> nat \<Rightarrow> error + nat" where
  "int_at s i = bind_err (item s i) (\<lambda>c. Inr (int_of_bit c))"

text \<open>
  \<^verbatim>\<open>data.find(b"\x2c", start)\<close>: the lowest index \<open>\<ge> start\<close> holding the byte, \<open>-1\<close>
  when there is none.
\<close>

definition find_byte :: "byte list \<Rightarrow> byte \<Rightarrow> nat \<Rightarrow> int" where
  "find_byte data b start =
     (case filter (\<lambda>i. data ! i = b) [start ..< length data] of
        [] \<Rightarrow> - 1
      | i # _ \<Rightarrow> int i)"

section \<open>Header fields\<close>

text \<open>
  \<^verbatim>\<open>extract_screen_descriptor\<close> returns the tuple
  \<open>(width, height, gc_fl, cr, sort_fl, gc_size, bcolour_i, px_ratio)\<close>.
  The packed byte is turned into text with \<^verbatim>\<open>bin(data[10])[2:]\<close>, which is not padded
  to eight characters, and the fields are read at fixed positions of that text.
\<close>

type_synonym screen_descriptor = "nat \<times> nat \<times> nat \<times> nat \<times> nat \<times> nat \<times> nat \<times> nat"

definition extract_screen_descriptor :: "byte list \<Rightarrow> error + screen_descriptor" where
  "extract_screen_descriptor data =
     (let width = from_bytes_little (slice data 6 8);
          height = from_bytes_little (slice data 8 10)
      in bind_err (item data 11) (\<lambda>bcolour_i.
         bind_err (item data 12) (\<lambda>px_ratio.
         bind_err (item data 10) (\<lambda>packed.
         let packed_field = bin_str (unat packed)
         in bind_err (int_at packed_field 0) (\<lambda>gc_fl.
            bind_err (int_base2 (slice packed_field 1 4)) (\<lambda>cr.
            bind_err (int_at packed_field 4) (\<lambda>sort_fl.
            bind_err (int_base2 (slice packed_field 5 8)) (\<lambda>gc_size.
            Inr (width, height, gc_fl, cr, sort_fl, gc_size,
                 unat bcolour_i, unat px_ratio)))))))))"

text \<open>\<^verbatim>\<open>extract_screen_descriptor(data)[5]\<close>.\<close>

definition gc_size_of :: "screen_descriptor \<Rightarrow> nat" where
  "gc_size_of sd =
     (case sd of (width, height, gc_fl, cr, sort_fl, gc_size, bcolour_i, px_ratio) \<Rightarrow> gc_size)"

text \<open>The byte length of the global colour table and the offset just after it.\<close>

definition table_size_of :: "screen_descriptor \<Rightarrow> nat" where
  "table_size_of sd = 3 * 2 ^ (gc_size_of sd + 1)"

text \<open>
  \<^verbatim>\<open>extract_global_colour_table\<close>: the bytes \<^verbatim>\<open>data[13:13 + table_size]\<close> in groups of
  three. The slice is clipped to the buffer, so a short buffer gives fewer colours and
  possibly a last colour of one or two components.
\<close>

definition extract_global_colour_table :: "byte list \<Rightarrow> error + nat list list" where
  "extract_global_colour_table data =
     bind_err (extract_screen_descriptor data) (\<lambda>sd.
       let table_size = table_size_of sd;
           table_bytes = slice data 13 (13 + table_size)
       in Inr (map (\<lambda>k. map unat (slice table_bytes (3 * k) (3 * k + 3)))
                 [0 ..< (length table_bytes + 2) div 3]))"

text \<open>
  \<^verbatim>\<open>extract_image_descriptor\<close> returns
  \<open>(left, top', width, height, lc_fl, itl_fl, sort_fl, res, lc_size)\<close>. The result of
  \<^verbatim>\<open>find\<close> is used as it is: when the separator is missing, \<open>start\<close> is \<open>-1\<close> and the
  fields are read from offsets 0 to 8.
\<close>

type_synonym image_descriptor = "nat \<times> nat \<times> nat \<times> nat \<times> nat \<times> nat \<times> nat \<times> nat \<times> nat"

definition extract_image_descriptor :: "byte list \<Rightarrow> error + image_descriptor" where
  "extract_image_descriptor data =
     bind_err (extract_screen_descriptor data) (\<lambda>sd.
       let table_size = table_size_of sd;
           search_start = 13 + table_size;
           start = find_byte data 0x2C search_start;
           left = from_bytes_little (slice data (nat (start + 1)) (nat (start + 3)));
           top' = from_bytes_little (slice data (nat (start + 3)) (nat (start + 5)));
           width = from_bytes_little (slice data (nat (start + 5)) (nat (start + 7)));
           height = from_bytes_little (slice data (nat (start + 7)) (nat (start + 9)))
       in bind_err (item data (nat (start + 9))) (\<lambda>packed.
          let packed_field = bin_str (unat packed)
          in if packed_field = ''0'' then Inr (left, top', width, height, 0, 0, 0, 0, 0)
             else bind_err (int_at packed_field 0) (\<lambda>lc_fl.
                  bind_err (int_at packed_field 1) (\<lambda>itl_fl.
                  bind_err (int_at packed_field 2) (\<lambda>sort_fl.
                  bind_err (int_base2 (slice packed_field 2 4)) (\<lambda>res.
                  bind_err (int_base2 (slice packed_field 4 7)) (\<lambda>lc_size.
                  Inr (left, top', width, height, lc_fl, itl_fl, sort_fl, res, lc_size))))))))"

text \<open>\<^verbatim>\<open>extract_image_descriptor(data)[2]\<close>.\<close>

definition width_of :: "image_descriptor \<Rightarrow> nat" where
  "width_of d =
     (case d of (left, top', width, height, lc_fl, itl_fl, sort_fl, res, lc_size) \<Rightarrow> width)"

section \<open>The data sub-blocks\<close>

text \<open>
  One byte of a sub-block as text: \<^verbatim>\<open>bin(byte)[2:]\<close> padded on the left to eight
  characters, then reversed, so that the least significant bit comes first.
\<close>

definition byte_bits :: "byte \<Rightarrow> string" where
  "byte_bits byte =
     (let long_byte = bin_str (unat byte);
          long_byte = (if length long_byte < 8
                       then replicate (8 - length (bin_str (unat byte))) CHR ''0'' @ long_byte
                       else long_byte)
      in rev long_byte)"

text \<open>
  The loop over the sub-blocks (lines 137 to 153), with its variables as arguments. The
  payload is a slice and is clipped to the buffer; the read of the next length byte is an
  index and raises IndexError past the end.
\<close>

function read_sub_blocks :: "byte list \<Rightarrow> nat \<Rightarrow> nat \<Rightarrow> string list \<Rightarrow> error + string list" where
  "read_sub_blocks image_bytes sub_block_start sub_block_length data_stream =
     (if sub_block_length = 0 then Inr data_stream
      else
        let sub_block = slice image_bytes (sub_block_start + 1)
                          (sub_block_start + sub_block_length + 1);
            stream = concat (map byte_bits sub_block);
            next_start = sub_block_start + (sub_block_length + 1)
        in if next_start < length image_bytes
           then read_sub_blocks image_bytes next_start (unat (image_bytes ! next_start))
                  (data_stream @ [stream])
           else Inl IndexError)"
  by pat_completeness auto
termination
  by (relation "measure (\<lambda>(image_bytes, sub_block_start, sub_block_length, data_stream).
        length image_bytes - sub_block_start)") auto

declare read_sub_blocks.simps [simp del]

section \<open>The LZW decoder\<close>

text \<open>
  What the decoder emits. The colours of \<open>gc_map\<close> are lists of up to three integers; the
  code table also holds the two strings \<^verbatim>\<open>"CC"\<close> and \<^verbatim>\<open>"EOI"\<close>, and Python would
  extend a list with the characters of a string, so a pixel is a colour or a character.
\<close>

datatype pixel = Colour "nat list" | Letter char

datatype entry = Seq "pixel list" | Str string

text \<open>\<^verbatim>\<open>image_data.extend(e)\<close> appends the items of \<open>e\<close>.\<close>

fun entry_items :: "entry \<Rightarrow> pixel list" where
  "entry_items (Seq ps) = ps"
| "entry_items (Str cs) = map Letter cs"

text \<open>\<^verbatim>\<open>e[0]\<close>.\<close>

fun entry_first :: "entry \<Rightarrow> error + pixel" where
  "entry_first (Seq ps) = item ps 0"
| "entry_first (Str cs) = bind_err (item cs 0) (\<lambda>c. Inr (Letter c))"

text \<open>\<^verbatim>\<open>e + [b]\<close>: a string plus a list raises TypeError.\<close>

fun entry_plus :: "entry \<Rightarrow> pixel \<Rightarrow> error + entry" where
  "entry_plus (Seq ps) b = Inr (Seq (ps @ [b]))"
| "entry_plus (Str cs) b = Inl TypeError"

text \<open>
  The local variables of the decoding loop. \<open>code_table\<close>, \<open>first\<close> and
  \<open>previous_code\<close> are not assigned before the loop: \<open>None\<close> is the unbound name, and
  reading it raises NameError (UnboundLocalError is a NameError).
\<close>

record lzw_state =
  start_b :: nat
  count :: nat
  code_size :: nat
  code_table :: "entry list option"
  first :: "bool option"
  previous_code :: "nat option"
  image_data :: "pixel list"

definition bound :: "'a option \<Rightarrow> error + 'a" where
  "bound v = (case v of None \<Rightarrow> Inl NameError | Some x \<Rightarrow> Inr x)"

datatype flow = Next lzw_state | Break lzw_state

text \<open>
  Lines 213 to 219, which every branch but the EOI branch falls through to. The code
  width is at least 1 here (a code has just been read, or the Clear branch has set it to
  the minimum code size plus 1), so the subtraction on natural numbers is Python's.
\<close>

definition lzw_tail :: "nat \<Rightarrow> lzw_state \<Rightarrow> lzw_state" where
  "lzw_tail current_code s =
     (let s1 = s\<lparr>count := count s + 1, previous_code := Some current_code\<rparr>
      in if count s1 = 2 ^ (code_size s1 - 1)
         then s1\<lparr>count := 0, code_size := code_size s1 + 1\<rparr>
         else s1)"

text \<open>The initial code table of the Clear branch, lines 182 to 184.\<close>

definition fresh_table :: "nat list list \<Rightarrow> entry list" where
  "fresh_table gc_map = map (\<lambda>c. Seq [Colour c]) gc_map @ [Str ''CC'', Str ''EOI'']"

text \<open>
  Lines 193 to 204, the code is in the code table: its colours are emitted, and unless it
  is the first code after a Clear the table gets the entry of the previous code plus the
  first of these colours.
\<close>

definition lzw_known :: "entry list \<Rightarrow> nat \<Rightarrow> lzw_state \<Rightarrow> error + flow" where
  "lzw_known tbl current_code s =
     (let current_color = tbl ! current_code;
          s2 = s\<lparr>image_data := image_data s @ entry_items current_color\<rparr>
      in bind_err (bound (first s2)) (\<lambda>is_first.
           if is_first then Inr (Next (lzw_tail current_code (s2\<lparr>first := Some False\<rparr>)))
           else
             bind_err (entry_first current_color) (\<lambda>b.
             bind_err (bound (previous_code s2)) (\<lambda>prev.
             bind_err (item tbl prev) (\<lambda>prev_entry.
             bind_err (entry_plus prev_entry b) (\<lambda>new.
               Inr (Next (lzw_tail current_code
                            (s2\<lparr>code_table := Some (tbl @ [new])\<rparr>)))))))))"

text \<open>
  Lines 205 to 211, the \<^verbatim>\<open>else\<close> branch: every code that is not below the length of
  the table lands here, whatever its distance from the end of the table.
\<close>

definition lzw_unknown :: "entry list \<Rightarrow> nat \<Rightarrow> lzw_state \<Rightarrow> error + flow" where
  "lzw_unknown tbl current_code s =
     bind_err (bound (previous_code s)) (\<lambda>prev.
     bind_err (item tbl prev) (\<lambda>prev_entry.
     bind_err (entry_first prev_entry) (\<lambda>b.
     bind_err (entry_plus prev_entry b) (\<lambda>new.
       Inr (Next (lzw_tail current_code
                    (s\<lparr>image_data := image_data s @ entry_items new,
                       code_table := Some (tbl @ [new])\<rparr>)))))))"

text \<open>
  The code read at the current position, lines 175 and 176: a slice of at most
  \<open>code_size\<close> bits (fewer at the end of the stream), reversed and read in base 2. An
  empty slice raises ValueError.
\<close>

definition read_code :: "string \<Rightarrow> lzw_state \<Rightarrow> error + nat" where
  "read_code data_stream s =
     (let reversed_order = slice data_stream (start_b s) (start_b s + code_size s)
      in int_base2 (rev reversed_order))"

text \<open>One pass through the body of \<^verbatim>\<open>while True\<close>, lines 174 to 219.\<close>

definition lzw_step :: "string \<Rightarrow> nat \<Rightarrow> nat list list \<Rightarrow> lzw_state \<Rightarrow> error + flow" where
  "lzw_step data_stream min_code_size gc_map s =
     bind_err (read_code data_stream s) (\<lambda>current_code.
       let cc_index = length gc_map;
           s1 = s\<lparr>start_b := start_b s + code_size s\<rparr>
       in if current_code = cc_index then
            Inr (Next (lzw_tail current_code
                         (s1\<lparr>code_table := Some (fresh_table gc_map), first := Some True,
                             count := 0, code_size := min_code_size + 1\<rparr>)))
          else if current_code = cc_index + 1 then Inr (Break s1)
          else
            bind_err (bound (code_table s1)) (\<lambda>tbl.
              if current_code < length tbl then lzw_known tbl current_code s1
              else lzw_unknown tbl current_code s1))"

text \<open>The state before the loop, lines 127 and 168 to 172.\<close>

definition lzw_init :: "nat \<Rightarrow> lzw_state" where
  "lzw_init min_code_size =
     \<lparr>start_b = 0, count = 0, code_size = min_code_size + 1, code_table = None,
      first = None, previous_code = None, image_data = []\<rparr>"

text \<open>The loop \<^verbatim>\<open>while True\<close>: it ends at \<^verbatim>\<open>break\<close> or at the first exception.\<close>

function lzw_loop :: "string \<Rightarrow> nat \<Rightarrow> nat list list \<Rightarrow> lzw_state \<Rightarrow> error + lzw_state" where
  "lzw_loop data_stream min_code_size gc_map s =
     (case lzw_step data_stream min_code_size gc_map s of
        Inl e \<Rightarrow> Inl e
      | Inr (Break s') \<Rightarrow> Inr s'
      | Inr (Next s') \<Rightarrow> lzw_loop data_stream min_code_size gc_map s')"
  by pat_completeness auto
termination
proof (relation "measure (\<lambda>(data_stream, min_code_size, gc_map, s).
        length data_stream - start_b s)")
  show "wf (measure (\<lambda>(data_stream, min_code_size, gc_map, s).
        length data_stream - start_b s))"
    by simp
next
  fix data_stream :: string and min_code_size :: nat and gc_map :: "nat list list"
    and s :: lzw_state and fl :: flow and s' :: lzw_state
  assume step: "lzw_step data_stream min_code_size gc_map s = Inr fl" and fl: "fl = Next s'"
  have bind: "\<And>m f y. (bind_err m f = Inr y) = (\<exists>v. m = Inr v \<and> f v = Inr y)"
  proof -
    fix m :: "error + 'x" and f :: "'x \<Rightarrow> error + 'y" and y
    show "(bind_err m f = Inr y) = (\<exists>v. m = Inr v \<and> f v = Inr y)"
      by (cases m) auto
  qed
  have tail: "\<And>c t. start_b (lzw_tail c t) = start_b t"
    by (simp add: lzw_tail_def Let_def)
  obtain c where c: "read_code data_stream s = Inr c"
    using step by (auto simp: lzw_step_def bind)
  then have "slice data_stream (start_b s) (start_b s + code_size s) \<noteq> []"
    by (auto simp: read_code_def Let_def int_base2_def split: if_splits)
  then have inside: "start_b s < length data_stream" and pos: "0 < code_size s"
    by (auto simp: slice_def)
  have "start_b s' = start_b s + code_size s"
    using step fl
    by (auto simp: lzw_step_def lzw_known_def lzw_unknown_def Let_def tail bind
             split: if_splits)
  with inside pos
  show "((data_stream, min_code_size, gc_map, s'), (data_stream, min_code_size, gc_map, s))
        \<in> measure (\<lambda>(data_stream, min_code_size, gc_map, s). length data_stream - start_b s)"
    by simp
qed

declare lzw_loop.simps [simp del]

section \<open>The grid\<close>

text \<open>
  Lines 223 to 230: \<open>index\<close> counts from 1, a row is moved to the image when
  \<open>index % width\<close> is 0, and whatever is left in \<open>row\<close> at the end is not returned.
\<close>

fun reshape :: "nat \<Rightarrow> nat \<Rightarrow> pixel list \<Rightarrow> pixel list list \<Rightarrow> pixel list \<Rightarrow>
    error + pixel list list" where
  "reshape width index row image' [] = Inr image'"
| "reshape width index row image' (color # rest) =
     (if width = 0 then Inl ZeroDivisionError
      else if index mod width = 0
           then reshape width (index + 1) [] (image' @ [row @ [color]]) rest
           else reshape width (index + 1) (row @ [color]) image' rest)"

section \<open>The whole decoder\<close>

text \<open>
  \<^verbatim>\<open>extract_image\<close> in its three stages. Lines 118 to 154 find the image data and
  build the bit stream: \<open>start\<close> is ten bytes after whatever \<^verbatim>\<open>find\<close> returned, so 9
  when the separator is missing.
\<close>

definition image_stream :: "byte list \<Rightarrow> error + nat \<times> string" where
  "image_stream data =
     bind_err (extract_screen_descriptor data) (\<lambda>sd.
       let table_size = table_size_of sd;
           search_start = 13 + table_size;
           start = nat (find_byte data 0x2C search_start + 10);
           image_bytes = drop start data
       in bind_err (item image_bytes 0) (\<lambda>min_code_byte.
          bind_err (item image_bytes 1) (\<lambda>first_length.
          bind_err (read_sub_blocks image_bytes 1 (unat first_length) []) (\<lambda>streams.
            Inr (unat min_code_byte, concat streams)))))"

text \<open>Lines 168 to 219: the colour table, the loop, and the colours it has emitted.\<close>

definition decode_colours :: "byte list \<Rightarrow> error + pixel list" where
  "decode_colours data =
     bind_err (image_stream data) (\<lambda>(min_code_size, data_stream).
     bind_err (extract_global_colour_table data) (\<lambda>gc_map.
     bind_err (lzw_loop data_stream min_code_size gc_map (lzw_init min_code_size)) (\<lambda>final.
       Inr (image_data final))))"

text \<open>Lines 221 to 231.\<close>

definition extract_image :: "byte list \<Rightarrow> error + pixel list list" where
  "extract_image data =
     bind_err (decode_colours data) (\<lambda>colours.
     bind_err (extract_image_descriptor data) (\<lambda>d.
       reshape (width_of d) 1 [] [] colours))"

section \<open>Observing a run of the decoder\<close>

definition flow_state :: "flow \<Rightarrow> lzw_state" where
  "flow_state fl = (case fl of Next s \<Rightarrow> s | Break s \<Rightarrow> s)"

text \<open>
  The outcome of the first \<open>n\<close> passes of the loop from state \<open>s\<close>: the state at the head
  of pass \<open>n + 1\<close>, or the \<^verbatim>\<open>break\<close> or the exception that ended the loop before.
\<close>

fun lzw_iter :: "nat \<Rightarrow> string \<Rightarrow> nat \<Rightarrow> nat list list \<Rightarrow> lzw_state \<Rightarrow> error + flow" where
  "lzw_iter 0 data_stream min_code_size gc_map s = Inr (Next s)"
| "lzw_iter (Suc n) data_stream min_code_size gc_map s =
     (case lzw_iter n data_stream min_code_size gc_map s of
        Inr (Next s') \<Rightarrow> lzw_step data_stream min_code_size gc_map s'
      | Inr (Break s') \<Rightarrow> Inr (Break s')
      | Inl e \<Rightarrow> Inl e)"

text \<open>
  The table the code builds: the colour entries, the two strings at the indices of the
  Clear and EOI codes, then the entries added while decoding, each a non-empty sequence
  of colours of \<open>gc_map\<close>.
\<close>

definition table_ok :: "nat list list \<Rightarrow> entry list \<Rightarrow> bool" where
  "table_ok gc_map tbl \<longleftrightarrow>
     length gc_map + 2 \<le> length tbl \<and>
     (\<forall>i < length tbl.
        case tbl ! i of
          Seq ps \<Rightarrow> i \<noteq> length gc_map \<and> i \<noteq> length gc_map + 1 \<and> ps \<noteq> [] \<and>
                    set ps \<subseteq> Colour ` set gc_map
        | Str cs \<Rightarrow> i = length gc_map \<or> i = length gc_map + 1)"

definition lzw_inv :: "nat list list \<Rightarrow> lzw_state \<Rightarrow> bool" where
  "lzw_inv gc_map s \<longleftrightarrow>
     set (image_data s) \<subseteq> Colour ` set gc_map \<and>
     (case code_table s of None \<Rightarrow> True | Some tbl \<Rightarrow> table_ok gc_map tbl)"

text \<open>
  The names of the loop, once bound: the table starts with the fresh table, the
  previous code is never the EOI code, and the next code is the first after a reset
  exactly when the previous code is the Clear code.
\<close>

definition run_ok :: "nat list list \<Rightarrow> lzw_state \<Rightarrow> bool" where
  "run_ok gc_map s \<longleftrightarrow>
     (case code_table s of
        None \<Rightarrow> True
      | Some tbl \<Rightarrow>
          take (length gc_map + 2) tbl = fresh_table gc_map \<and>
          (case (first s, previous_code s) of
             (Some is_first, Some prev) \<Rightarrow>
               prev \<noteq> length gc_map + 1 \<and> (is_first \<longleftrightarrow> prev = length gc_map)
           | _ \<Rightarrow> False))"

section \<open>Python values, for comparing results with literals\<close>

text \<open>
  A pixel in \<^verbatim>\<open>image_data\<close> is a Python list of integers (or, in principle, a one-letter
  string). To compare what is returned with a list of integers, both are read as Python
  values, where an integer is never equal to a list.
\<close>

datatype pyval = PInt nat | PStr string | PList "pyval list"

fun py_pixel :: "pixel \<Rightarrow> pyval" where
  "py_pixel (Colour c) = PList (map PInt c)"
| "py_pixel (Letter ch) = PStr [ch]"

definition py_image :: "pixel list list \<Rightarrow> pyval" where
  "py_image rows = PList (map (\<lambda>row. PList (map py_pixel row)) rows)"

text \<open>An integer below \<open>n\<close>: an index into a colour table of \<open>n\<close> entries.\<close>

fun is_colour_index :: "nat \<Rightarrow> pyval \<Rightarrow> bool" where
  "is_colour_index n (PInt i) = (i < n)"
| "is_colour_index n (PStr cs) = False"
| "is_colour_index n (PList vs) = False"

section \<open>The published layout of the packed screen-descriptor byte\<close>

text \<open>
  Bits \<open>lo\<close> to \<open>hi\<close> of a byte, counted from the most significant bit, which is bit 0:
  bit 0 is the global colour table flag, bits 1 to 3 the colour resolution, bit 4 the
  sort flag and bits 5 to 7 the exponent of the table size.
\<close>

definition packed_bits :: "nat \<Rightarrow> nat \<Rightarrow> nat \<Rightarrow> nat" where
  "packed_bits b lo hi = (b div 2 ^ (7 - hi)) mod 2 ^ (hi + 1 - lo)"

text \<open>The character of the lowest binary digit of a number.\<close>

definition bit_char :: "nat \<Rightarrow> char" where
  "bit_char m = (if m mod 2 = 0 then CHR ''0'' else CHR ''1'')"


section \<open>Sample files\<close>

text \<open>
  A 2 by 2 image of four colours: signature GIF89a, screen 2 by 2, packed byte 0x91
  (global table of \<open>2 ^ 2\<close> colours), the table, the image descriptor, minimum code size
  2, and one sub-block of three bytes holding the codes Clear, 0, 1, 2 on three bits
  and 3, EOI on four bits.
\<close>

definition gif_header :: "byte list" where
  "gif_header = [0x47, 0x49, 0x46, 0x38, 0x39, 0x61, 2, 0, 2, 0, 0x91, 0, 0]"

definition gif_descriptor :: "byte list" where
  "gif_descriptor = [0x2C, 0, 0, 0, 0, 2, 0, 2, 0, 0]"

definition gif_file :: "byte list \<Rightarrow> byte list \<Rightarrow> byte list" where
  "gif_file table bytes = gif_header @ table @ gif_descriptor @ bytes"

definition gif2x2_with :: "byte list \<Rightarrow> byte list" where
  "gif2x2_with table = gif_file table [2, 3, 0x44, 0x34, 0x05, 0, 0x3B]"

definition rgb_table :: "byte list" where
  "rgb_table = [0, 0, 0, 255, 0, 0, 0, 255, 0, 0, 0, 255]"

definition gif2x2 :: "byte list" where
  "gif2x2 = gif2x2_with rgb_table"

definition sample_gc_map :: "nat list list" where
  "sample_gc_map = [[0, 0, 0], [255, 0, 0], [0, 255, 0], [0, 0, 255]]"

definition sample_stream :: string where
  "sample_stream = concat (map byte_bits [0x44, 0x34, 0x05])"

text \<open>The first thirteen bytes alone, with a chosen packed byte at offset 10.\<close>

definition screen_only :: "byte \<Rightarrow> byte list" where
  "screen_only packed = [0x47, 0x49, 0x46, 0x38, 0x39, 0x61, 2, 0, 2, 0, packed, 0, 0]"

text \<open>
  The same file with other image data after the descriptor: the byte of the minimum
  code size, then the sub-blocks.
\<close>

definition gif_image_data :: "byte list \<Rightarrow> byte list" where
  "gif_image_data bytes = gif_file rgb_table bytes"

text \<open>
  The codes Clear, 0, 1, 2 on three bits, then 10 and EOI on four bits. When 10 is read
  the table has 8 entries, so 10 is two past its length.
\<close>

definition gif_two_past :: "byte list" where
  "gif_two_past = gif_image_data [2, 3, 0x44, 0xA4, 0x05, 0, 0x3B]"

definition two_past_stream :: string where
  "two_past_stream = concat (map byte_bits [0x44, 0xA4, 0x05])"







definition black :: pixel where "black = Colour [0, 0, 0]"
definition red :: pixel where "red = Colour [255, 0, 0]"
definition green :: pixel where "green = Colour [0, 255, 0]"
definition blue :: pixel where "blue = Colour [0, 0, 255]"

text \<open>The decoder's state in the sample after the Clear code, and after the code 2.\<close>

definition after_clear :: lzw_state where
  "after_clear = \<lparr>start_b = 3, count = 1, code_size = 3,
     code_table = Some (fresh_table sample_gc_map), first = Some True,
     previous_code = Some 4, image_data = []\<rparr>"

definition after_three_colours :: lzw_state where
  "after_three_colours = \<lparr>start_b = 12, count = 0, code_size = 4,
     code_table = Some (fresh_table sample_gc_map @ [Seq [black, red], Seq [red, green]]),
     first = Some False, previous_code = Some 2, image_data = [black, red, green]\<rparr>"

definition after_eoi :: lzw_state where
  "after_eoi = \<lparr>start_b = 20, count = 1, code_size = 4,
     code_table = Some (fresh_table sample_gc_map @
       [Seq [black, red], Seq [red, green], Seq [green, blue]]),
     first = Some False, previous_code = Some 3, image_data = [black, red, green, blue]\<rparr>"


text \<open>
  The codes Clear, 0, 1, 2 on three bits, then 10, 0 and EOI on four bits: a colour code
  after the code that is two past the table, and the state between the two.
\<close>

definition gif_two_past_colour :: "byte list" where
  "gif_two_past_colour = gif_image_data [2, 3, 0x44, 0xA4, 0x50, 0, 0x3B]"

definition two_past_colour_stream :: string where
  "two_past_colour_stream = concat (map byte_bits [0x44, 0xA4, 0x50])"

definition after_two_past :: lzw_state where
  "after_two_past = \<lparr>start_b = 16, count = 1, code_size = 4,
     code_table = Some (fresh_table sample_gc_map @
       [Seq [black, red], Seq [red, green], Seq [green, green]]),
     first = Some False, previous_code = Some 10,
     image_data = [black, red, green, green, green]\<rparr>"

section \<open>Basic facts\<close>

text \<open>When a sequence of steps returns, each step has returned.\<close>

lemma bind_err_Inr_iff: "bind_err m f = Inr y \<longleftrightarrow> (\<exists>v. m = Inr v \<and> f v = Inr y)"
  by (cases m) auto

lemma bind_err_Inl_iff:
  "bind_err m f = Inl e \<longleftrightarrow> m = Inl e \<or> (\<exists>v. m = Inr v \<and> f v = Inl e)"
  by (cases m) auto

text \<open>\<open>lzw_iter\<close> is a prefix of the loop: after any number of passes the loop goes on from
  the state reached, or has ended the way the passes ended.\<close>

lemma lzw_loop_unroll:
  "lzw_loop data_stream min_code_size gc_map s =
     (case lzw_iter n data_stream min_code_size gc_map s of
        Inl e \<Rightarrow> Inl e
      | Inr (Break s') \<Rightarrow> Inr s'
      | Inr (Next s') \<Rightarrow> lzw_loop data_stream min_code_size gc_map s')"
proof (induction n)
  case 0
  show ?case by simp
next
  case (Suc n)
  show ?case
  proof (cases "lzw_iter n data_stream min_code_size gc_map s")
    case (Inl e)
    with Suc show ?thesis by simp
  next
    case (Inr fl)
    show ?thesis
    proof (cases fl)
      case (Next s')
      with Inr Suc show ?thesis
        by (simp add: lzw_loop.simps [of data_stream min_code_size gc_map s'])
    next
      case (Break s')
      with Inr Suc show ?thesis by simp
    qed
  qed
qed

text \<open>What the common tail of the loop body changes.\<close>

lemma lzw_tail_fields:
  "code_table (lzw_tail c s) = code_table s"
  "first (lzw_tail c s) = first s"
  "image_data (lzw_tail c s) = image_data s"
  "previous_code (lzw_tail c s) = Some c"
  "start_b (lzw_tail c s) = start_b s"
  by (simp_all add: lzw_tail_def Let_def)

lemma lzw_tail_code_size:
  "code_size (lzw_tail c s) =
     (if count s + 1 = 2 ^ (code_size s - 1) then code_size s + 1 else code_size s)"
  by (simp add: lzw_tail_def Let_def)

lemma lzw_tail_count:
  "count (lzw_tail c s) = (if count s + 1 = 2 ^ (code_size s - 1) then 0 else count s + 1)"
  by (simp add: lzw_tail_def Let_def)

lemma one_eq_power_two: "(Suc 0 = 2 ^ m) = (m = 0)"
  by (cases m) auto

lemma lzw_step_code_size:
  assumes "lzw_step data_stream min_code_size gc_map s = Inr (Next s')"
    and "read_code data_stream s \<noteq> Inr (length gc_map)"
  shows "code_size s' =
     (if count s + 1 = 2 ^ (code_size s - 1) then code_size s + 1 else code_size s)"
  using assms
  by (auto simp: lzw_step_def lzw_known_def lzw_unknown_def Let_def bind_err_Inr_iff
        lzw_tail_code_size split: if_splits)

lemma lzw_iter_Suc_Next:
  assumes "lzw_iter (Suc n) data_stream min_code_size gc_map s0 = Inr fl"
  shows "(\<exists>s. lzw_iter n data_stream min_code_size gc_map s0 = Inr (Next s) \<and>
              lzw_step data_stream min_code_size gc_map s = Inr fl) \<or>
         (\<exists>s. lzw_iter n data_stream min_code_size gc_map s0 = Inr (Break s) \<and> fl = Break s)"
  using assms by (auto split: sum.splits flow.splits)

text \<open>
  The loop returns only by \<^verbatim>\<open>break\<close>, that is after a pass that has read the EOI code;
  every other run ends in an exception.
\<close>

lemma lzw_iter_shift:
  assumes "lzw_step data_stream min_code_size gc_map s = Inr (Next s')"
  shows "lzw_iter (Suc n) data_stream min_code_size gc_map s =
         lzw_iter n data_stream min_code_size gc_map s'"
  using assms by (induction n) simp_all

lemma lzw_step_Break:
  assumes "lzw_step data_stream min_code_size gc_map s = Inr (Break s')"
  shows "read_code data_stream s = Inr (length gc_map + 1)"
  using assms
  by (auto simp: lzw_step_def lzw_known_def lzw_unknown_def Let_def bind_err_Inr_iff
        split: if_splits)

lemma lzw_loop_returns_at_eoi:
  assumes "lzw_loop data_stream min_code_size gc_map s = Inr final"
  shows "\<exists>n sn. lzw_iter n data_stream min_code_size gc_map s = Inr (Next sn) \<and>
           read_code data_stream sn = Inr (length gc_map + 1) \<and>
           lzw_iter (Suc n) data_stream min_code_size gc_map s = Inr (Break final)"
  using assms
proof (induction data_stream min_code_size gc_map s rule: lzw_loop.induct)
  case (1 data_stream min_code_size gc_map s)
  show ?case
  proof (cases "lzw_step data_stream min_code_size gc_map s")
    case (Inl e)
    with "1.prems" show ?thesis
      by (simp add: lzw_loop.simps [of data_stream min_code_size gc_map s])
  next
    case (Inr fl)
    show ?thesis
    proof (cases fl)
      case (Break s')
      with Inr "1.prems" have "s' = final"
        by (simp add: lzw_loop.simps [of data_stream min_code_size gc_map s])
      with Inr Break lzw_step_Break [of data_stream min_code_size gc_map s final]
      have "lzw_iter 0 data_stream min_code_size gc_map s = Inr (Next s) \<and>
           read_code data_stream s = Inr (length gc_map + 1) \<and>
           lzw_iter (Suc 0) data_stream min_code_size gc_map s = Inr (Break final)"
        by simp
      then show ?thesis by blast
    next
      case (Next s')
      with Inr "1.prems" have "lzw_loop data_stream min_code_size gc_map s' = Inr final"
        by (simp add: lzw_loop.simps [of data_stream min_code_size gc_map s])
      from "1.IH" [OF Inr Next this] obtain n sn where
        n: "lzw_iter n data_stream min_code_size gc_map s' = Inr (Next sn)"
          "read_code data_stream sn = Inr (length gc_map + 1)"
          "lzw_iter (Suc n) data_stream min_code_size gc_map s' = Inr (Break final)"
        by blast
      from Inr Next have step: "lzw_step data_stream min_code_size gc_map s = Inr (Next s')"
        by simp
      have "lzw_iter (Suc n) data_stream min_code_size gc_map s = Inr (Next sn)"
        "lzw_iter (Suc (Suc n)) data_stream min_code_size gc_map s = Inr (Break final)"
        using n lzw_iter_shift [OF step] by simp_all
      with n(2) show ?thesis by blast
    qed
  qed
qed


section \<open>Facts about the helpers\<close>


text \<open>The text of \<^verbatim>\<open>bin\<close> is never empty, and has at least five characters from 16 on.\<close>

lemma bin_str_nonempty: "bin_str n \<noteq> []"
  by (subst bin_str.simps) simp

lemma bin_str_zero: "bin_str 0 = ''0''"
  by (subst bin_str.simps) simp




lemma int_base2_nonempty: "s \<noteq> [] \<Longrightarrow> \<exists>v. int_base2 s = Inr v"
  by (simp add: int_base2_def)

text \<open>\<^verbatim>\<open>extract_screen_descriptor\<close> returns only for a buffer of at least 13 bytes.\<close>

lemma screen_descriptor_length:
  assumes "extract_screen_descriptor data = Inr sd"
  shows "12 < length data"
  using assms
  by (auto simp: extract_screen_descriptor_def Let_def bind_err_Inr_iff item_def
        split: if_splits)

section \<open>Evaluating the sample files\<close>

text \<open>Indexing a list that is written out, one element at a time.\<close>

lemma item_Cons_0: "item (x # xs) 0 = Inr x"
  by (simp add: item_def)

lemma item_Cons_numeral: "item (x # xs) (numeral k) = item xs (pred_numeral k)"
  by (simp add: item_def nth_Cons_numeral numeral_eq_Suc)

lemma item_Cons_Suc: "item (x # xs) (Suc n) = item xs n"
  by (simp add: item_def)

lemma item_Cons_1: "item (x # xs) 1 = item xs 0"
  by (simp add: item_def)

lemma find_byte_here:
  assumes "start < length data" and "data ! start = b"
  shows "find_byte data b start = int start"
  using assms by (simp add: find_byte_def upt_conv_Cons)

lemma bin_str_values:
  "bin_str 145 = ''10010001''" "bin_str 0 = ''0''" "bin_str 16 = ''10000''"
  "bin_str 112 = ''1110000''"
  by code_simp+

lemmas eval_simps = item_Cons_0 item_Cons_numeral item_Cons_Suc item_Cons_1 slice_def
  from_bytes_little_def bin_str_values int_at_def int_base2_def int_of_bit_def

text \<open>
  The sample files share their first 35 bytes up to the colours of the table, so the
  header fields are evaluated once, for any twelve table bytes and any image data.
\<close>

lemma hdr_screen:
  "extract_screen_descriptor (gif_file [r0, g0, b0, r1, g1, b1, r2, g2, b2, r3, g3, b3] bytes)
     = Inr (2, 2, 1, 1, 0, 1, 0, 0)"
  by (simp add: gif_file_def gif_header_def gif_descriptor_def extract_screen_descriptor_def
        eval_simps)

lemma hdr_table:
  "extract_global_colour_table (gif_file [r0, g0, b0, r1, g1, b1, r2, g2, b2, r3, g3, b3] bytes)
     = Inr [[unat r0, unat g0, unat b0], [unat r1, unat g1, unat b1],
            [unat r2, unat g2, unat b2], [unat r3, unat g3, unat b3]]"
proof -
  have u: "[0 ..< 4] = [0, 1, 2, 3::nat]" by (simp add: upt_rec)
  show ?thesis
    by (simp add: extract_global_colour_table_def hdr_screen table_size_of_def gc_size_of_def)
       (simp add: gif_file_def gif_header_def gif_descriptor_def slice_def u)
qed

lemma hdr_find:
  "find_byte (gif_file [r0, g0, b0, r1, g1, b1, r2, g2, b2, r3, g3, b3] bytes) 0x2C 25 = 25"
proof -
  have "find_byte (gif_file [r0, g0, b0, r1, g1, b1, r2, g2, b2, r3, g3, b3] bytes) 0x2C 25
      = int 25"
    by (rule find_byte_here) (simp_all add: gif_file_def gif_header_def gif_descriptor_def)
  then show ?thesis by simp
qed

lemma hdr_descriptor:
  "extract_image_descriptor (gif_file [r0, g0, b0, r1, g1, b1, r2, g2, b2, r3, g3, b3] bytes)
     = Inr (0, 0, 2, 2, 0, 0, 0, 0, 0)"
  by (simp add: extract_image_descriptor_def hdr_screen table_size_of_def gc_size_of_def hdr_find)
     (simp add: gif_file_def gif_header_def gif_descriptor_def eval_simps)

lemma hdr_stream:
  "image_stream (gif_file [r0, g0, b0, r1, g1, b1, r2, g2, b2, r3, g3, b3] bytes) =
     bind_err (item bytes 0) (\<lambda>min_code_byte.
     bind_err (item bytes 1) (\<lambda>first_length.
     bind_err (read_sub_blocks bytes 1 (unat first_length) []) (\<lambda>streams.
       Inr (unat min_code_byte, concat streams))))"
  by (simp add: image_stream_def hdr_screen table_size_of_def gc_size_of_def hdr_find)
     (simp add: gif_file_def gif_header_def gif_descriptor_def)

lemma bind_err_assoc:
  "bind_err (bind_err m f) g = bind_err m (\<lambda>x. bind_err (f x) g)"
  by (cases m) simp_all

text \<open>What is left of \<^verbatim>\<open>extract_image\<close> for such a file: the sub-blocks, the loop, the grid.\<close>

lemma gif_file_pipeline:
  "extract_image (gif_file [r0, g0, b0, r1, g1, b1, r2, g2, b2, r3, g3, b3] bytes) =
     bind_err (item bytes 0) (\<lambda>min_code_byte.
     bind_err (item bytes 1) (\<lambda>first_length.
     bind_err (read_sub_blocks bytes 1 (unat first_length) []) (\<lambda>streams.
     bind_err (lzw_loop (concat streams) (unat min_code_byte)
                 [[unat r0, unat g0, unat b0], [unat r1, unat g1, unat b1],
                  [unat r2, unat g2, unat b2], [unat r3, unat g3, unat b3]]
                 (lzw_init (unat min_code_byte))) (\<lambda>final.
       reshape 2 1 [] [] (image_data final)))))"
  by (simp add: extract_image_def decode_colours_def hdr_stream hdr_table hdr_descriptor
        width_of_def bind_err_assoc)

lemma gif2x2_pipeline:
  "extract_image (gif2x2_with [r0, g0, b0, r1, g1, b1, r2, g2, b2, r3, g3, b3]) =
     Inr [[Colour [unat r0, unat g0, unat b0], Colour [unat r1, unat g1, unat b1]],
          [Colour [unat r2, unat g2, unat b2], Colour [unat r3, unat g3, unat b3]]]"
  unfolding gif2x2_with_def gif_file_pipeline by code_simp

lemma gif2x2_inputs:
  "image_stream gif2x2 = Inr (2, sample_stream)"
  "extract_global_colour_table gif2x2 = Inr sample_gc_map"
proof -
  show "image_stream gif2x2 = Inr (2, sample_stream)"
    unfolding gif2x2_def gif2x2_with_def rgb_table_def hdr_stream by code_simp
  show "extract_global_colour_table gif2x2 = Inr sample_gc_map"
    unfolding gif2x2_def gif2x2_with_def rgb_table_def hdr_table sample_gc_map_def by simp
qed

text \<open>The other sample files.\<close>

lemma two_past_run:
  "image_stream gif_two_past = Inr (2, two_past_stream)"
  "lzw_iter 4 two_past_stream 2 sample_gc_map (lzw_init 2) = Inr (Next after_three_colours)"
  "read_code two_past_stream after_three_colours = Inr 10"
  "extract_image gif_two_past = Inr [[black, red], [green, green]]"
proof -
  show "image_stream gif_two_past = Inr (2, two_past_stream)"
    unfolding gif_two_past_def gif_image_data_def rgb_table_def hdr_stream by code_simp
  show "lzw_iter 4 two_past_stream 2 sample_gc_map (lzw_init 2) = Inr (Next after_three_colours)"
    by code_simp
  show "read_code two_past_stream after_three_colours = Inr 10"
    by code_simp
  show "extract_image gif_two_past = Inr [[black, red], [green, green]]"
    unfolding gif_two_past_def gif_image_data_def rgb_table_def gif_file_pipeline by code_simp
qed






lemma two_past_colour_run:
  "lzw_iter 4 two_past_colour_stream 2 sample_gc_map (lzw_init 2)
     = Inr (Next after_three_colours)"
  "read_code two_past_colour_stream after_three_colours = Inr 10"
  "lzw_step two_past_colour_stream 2 sample_gc_map after_three_colours
     = Inr (Next after_two_past)"
  "read_code two_past_colour_stream after_two_past = Inr 0"
  "extract_image gif_two_past_colour = Inl IndexError"
proof -
  show "lzw_iter 4 two_past_colour_stream 2 sample_gc_map (lzw_init 2)
     = Inr (Next after_three_colours)"
    by code_simp
  show "read_code two_past_colour_stream after_three_colours = Inr 10"
    by code_simp
  show "lzw_step two_past_colour_stream 2 sample_gc_map after_three_colours
     = Inr (Next after_two_past)"
    by code_simp
  show "read_code two_past_colour_stream after_two_past = Inr 0"
    by code_simp
  show "extract_image gif_two_past_colour = Inl IndexError"
    unfolding gif_two_past_colour_def gif_image_data_def rgb_table_def gif_file_pipeline
    by code_simp
qed







text \<open>The codes read in the first six passes over the sample: Clear, 0, 1, 2, 3, EOI.\<close>

lemma sample_codes:
  "map (\<lambda>k. map_sum id (\<lambda>fl. read_code sample_stream (flow_state fl))
               (lzw_iter k sample_stream 2 sample_gc_map (lzw_init 2))) [0, 1, 2, 3, 4, 5] =
     [Inr (Inr 4), Inr (Inr 0), Inr (Inr 1), Inr (Inr 2), Inr (Inr 3), Inr (Inr 5)]"
  by code_simp

lemma sample_run:
  "lzw_iter 1 sample_stream 2 sample_gc_map (lzw_init 2) = Inr (Next after_clear)"
  "lzw_iter 4 sample_stream 2 sample_gc_map (lzw_init 2) = Inr (Next after_three_colours)"
  "lzw_iter 6 sample_stream 2 sample_gc_map (lzw_init 2) = Inr (Break after_eoi)"
  by code_simp+

lemma sample_loop:
  "lzw_loop sample_stream 2 sample_gc_map (lzw_init 2) = Inr after_eoi"
  using lzw_loop_unroll [of sample_stream 2 sample_gc_map "lzw_init 2" 6]
  by (simp only: sample_run sum.case flow.case)

lemma sample_gc_map_length: "length sample_gc_map = 4"
  by (simp add: sample_gc_map_def)

section \<open>The sample image through the whole pipeline\<close>

text \<open>
  C1, as stated, fails: \<^verbatim>\<open>extract_image\<close> does not return the grid of colour indices
  \<open>[[0, 1], [2, 3]]\<close> for the sample image. What it returns holds lists of three
  integers where the literal holds integers, and the two are different Python values.
\<close>

theorem sample_image_is_not_index_grid:
  "map_sum id py_image (extract_image gif2x2) \<noteq>
     Inr (PList [PList [PInt 0, PInt 1], PList [PInt 2, PInt 3]])"
  using gif2x2_pipeline [of 0 0 0 255 0 0 0 255 0 0 0 255]
  by (simp add: gif2x2_def rgb_table_def py_image_def)

text \<open>
  C1, amended: for every choice of the twelve bytes of the global colour table, the
  sample 2 by 2 image (minimum code size 2, four table entries, one sub-block with the
  codes Clear, 0, 1, 2, 3, EOI) decodes through \<^verbatim>\<open>extract_image\<close> to the grid whose two
  rows hold the table's colours 0, 1 and 2, 3 themselves, each as its list of red, green
  and blue.
\<close>

theorem sample_image_decodes_to_colour_grid:
  "extract_image (gif2x2_with [r0, g0, b0, r1, g1, b1, r2, g2, b2, r3, g3, b3]) =
     Inr [[Colour [unat r0, unat g0, unat b0], Colour [unat r1, unat g1, unat b1]],
          [Colour [unat r2, unat g2, unat b2], Colour [unat r3, unat g3, unat b3]]]"
  by (rule gif2x2_pipeline)

section \<open>What the decoder emits\<close>

text \<open>
  The invariant of the loop: everything emitted so far is a colour of the table, and the
  code table, once bound, holds the two strings at the indices of the Clear and EOI
  codes and non-empty sequences of table colours everywhere else. The fresh table has
  this form and appending a sequence of table colours keeps it.
\<close>

lemma table_ok_fresh: "table_ok gc_map (fresh_table gc_map)"
  by (auto simp: table_ok_def fresh_table_def nth_append less_Suc_eq
        split: entry.splits)

lemma table_ok_entry:
  assumes "table_ok gc_map tbl" and "i < length tbl" and "tbl ! i = Seq ps"
  shows "ps \<noteq> [] \<and> set ps \<subseteq> Colour ` set gc_map"
  using assms unfolding table_ok_def by (force split: entry.splits)

lemma table_ok_known:
  assumes "table_ok gc_map tbl" and "c < length tbl"
    and "c \<noteq> length gc_map" and "c \<noteq> length gc_map + 1"
  shows "\<exists>ps. tbl ! c = Seq ps \<and> ps \<noteq> [] \<and> set ps \<subseteq> Colour ` set gc_map"
  using assms unfolding table_ok_def by (cases "tbl ! c") (force split: entry.splits)+

lemma table_ok_append:
  assumes "table_ok gc_map tbl" and "ps \<noteq> []" and "set ps \<subseteq> Colour ` set gc_map"
  shows "table_ok gc_map (tbl @ [Seq ps])"
  using assms unfolding table_ok_def
  by (auto simp: nth_append less_Suc_eq split: entry.splits)

lemma entry_plus_Seq:
  "entry_plus e b = Inr new \<Longrightarrow> \<exists>qs. e = Seq qs \<and> new = Seq (qs @ [b])"
  by (cases e) auto

text \<open>Each branch of the loop body keeps the invariant, so every pass does.\<close>

lemma lzw_known_inv:
  assumes inv: "set (image_data s) \<subseteq> Colour ` set gc_map" and ok: "table_ok gc_map tbl"
    and c: "c < length tbl" "c \<noteq> length gc_map" "c \<noteq> length gc_map + 1"
    and cur: "code_table s = Some tbl"
    and step: "lzw_known tbl c s = Inr fl"
  shows "lzw_inv gc_map (flow_state fl)"
proof -
  from table_ok_known [OF ok c] obtain ps where
    ps: "tbl ! c = Seq ps" "ps \<noteq> []" "set ps \<subseteq> Colour ` set gc_map" by blast
  show ?thesis
  proof (cases "first s = Some True")
    case True
    with step ps inv ok cur show ?thesis
      by (auto simp: lzw_known_def Let_def bound_def bind_err_Inr_iff lzw_inv_def
            flow_state_def lzw_tail_fields)
  next
    case False
    with step obtain b prev prev_entry new where
      b: "entry_first (tbl ! c) = Inr b" and
      prev: "item tbl prev = Inr prev_entry" and
      new: "entry_plus prev_entry b = Inr new" and
      fl: "fl = Next (lzw_tail c (s\<lparr>image_data := image_data s @ entry_items (tbl ! c),
                                     code_table := Some (tbl @ [new])\<rparr>))"
      by (auto simp: lzw_known_def Let_def bound_def bind_err_Inr_iff
            split: option.splits if_splits)
    from b ps have bin: "b \<in> Colour ` set gc_map"
      by (cases ps) (auto simp: item_def)
    from entry_plus_Seq [OF new] obtain qs where
      qs: "prev_entry = Seq qs" "new = Seq (qs @ [b])" by blast
    from prev qs have "prev < length tbl" "tbl ! prev = Seq qs"
      by (auto simp: item_def split: if_splits)
    from table_ok_entry [OF ok this] bin
    have "qs @ [b] \<noteq> []" "set (qs @ [b]) \<subseteq> Colour ` set gc_map" by auto
    from table_ok_append [OF ok this] qs
    have "table_ok gc_map (tbl @ [new])" by simp
    with fl ps inv show ?thesis
      by (auto simp: lzw_inv_def flow_state_def lzw_tail_fields)
  qed
qed

lemma lzw_unknown_inv:
  assumes inv: "set (image_data s) \<subseteq> Colour ` set gc_map" and ok: "table_ok gc_map tbl"
    and step: "lzw_unknown tbl c s = Inr fl"
  shows "lzw_inv gc_map (flow_state fl)"
proof -
  from step obtain b prev prev_entry new where
    prev: "item tbl prev = Inr prev_entry" and
    b: "entry_first prev_entry = Inr b" and
    new: "entry_plus prev_entry b = Inr new" and
    fl: "fl = Next (lzw_tail c (s\<lparr>image_data := image_data s @ entry_items new,
                                   code_table := Some (tbl @ [new])\<rparr>))"
    by (auto simp: lzw_unknown_def bind_err_Inr_iff)
  from entry_plus_Seq [OF new] obtain qs where
    qs: "prev_entry = Seq qs" "new = Seq (qs @ [b])" by blast
  from prev qs have "prev < length tbl" "tbl ! prev = Seq qs"
    by (auto simp: item_def split: if_splits)
  from table_ok_entry [OF ok this] have q: "qs \<noteq> []" "set qs \<subseteq> Colour ` set gc_map"
    by auto
  from b qs q have "b \<in> Colour ` set gc_map"
    by (cases qs) (auto simp: item_def)
  with q have n: "qs @ [b] \<noteq> []" "set (qs @ [b]) \<subseteq> Colour ` set gc_map" by auto
  from table_ok_append [OF ok n] qs have "table_ok gc_map (tbl @ [new])" by simp
  with fl qs n inv show ?thesis
    by (auto simp: lzw_inv_def flow_state_def lzw_tail_fields)
qed

lemma lzw_step_inv:
  assumes inv: "lzw_inv gc_map s"
    and step: "lzw_step data_stream min_code_size gc_map s = Inr fl"
  shows "lzw_inv gc_map (flow_state fl)"
proof -
  from step obtain c where c: "read_code data_stream s = Inr c"
    by (auto simp: lzw_step_def bind_err_Inr_iff)
  let ?s1 = "s\<lparr>start_b := start_b s + code_size s\<rparr>"
  from inv have img: "set (image_data ?s1) \<subseteq> Colour ` set gc_map"
    by (simp add: lzw_inv_def)
  consider (clear) "c = length gc_map" | (eoi) "c = length gc_map + 1"
    | (other) "c \<noteq> length gc_map" "c \<noteq> length gc_map + 1" by blast
  then show ?thesis
  proof cases
    case clear
    with step c inv show ?thesis
      by (auto simp: lzw_step_def Let_def lzw_inv_def flow_state_def lzw_tail_fields
            table_ok_fresh)
  next
    case eoi
    with step c inv show ?thesis
      by (auto simp: lzw_step_def Let_def lzw_inv_def flow_state_def)
  next
    case other
    with step c obtain tbl where tbl: "code_table s = Some tbl"
      and branch: "(if c < length tbl then lzw_known tbl c ?s1 else lzw_unknown tbl c ?s1) = Inr fl"
      by (auto simp: lzw_step_def Let_def bound_def bind_err_Inr_iff split: option.splits)
    from inv tbl have ok: "table_ok gc_map tbl" by (simp add: lzw_inv_def)
    show ?thesis
    proof (cases "c < length tbl")
      case True
      with branch have "lzw_known tbl c ?s1 = Inr fl" by simp
      moreover from tbl have "code_table ?s1 = Some tbl" by simp
      ultimately show ?thesis
        using lzw_known_inv [OF img ok True other] by blast
    next
      case False
      with branch have "lzw_unknown tbl c ?s1 = Inr fl" by simp
      from lzw_unknown_inv [OF img ok this] show ?thesis .
    qed
  qed
qed

lemma lzw_iter_inv:
  assumes "lzw_inv gc_map s0"
    and "lzw_iter n data_stream min_code_size gc_map s0 = Inr fl"
  shows "lzw_inv gc_map (flow_state fl)"
  using assms(2)
proof (induction n arbitrary: fl)
  case 0
  with assms(1) show ?case by (auto simp: flow_state_def)
next
  case (Suc n)
  from lzw_iter_Suc_Next [OF Suc.prems] show ?case
  proof (elim disjE exE conjE)
    fix s
    assume it: "lzw_iter n data_stream min_code_size gc_map s0 = Inr (Next s)"
      and st: "lzw_step data_stream min_code_size gc_map s = Inr fl"
    from Suc.IH [OF it] have "lzw_inv gc_map s" by (simp add: flow_state_def)
    from lzw_step_inv [OF this st] show ?thesis .
  next
    fix s
    assume it: "lzw_iter n data_stream min_code_size gc_map s0 = Inr (Break s)"
      and "fl = Break s"
    with Suc.IH [OF it] show ?thesis by simp
  qed
qed

lemma lzw_inv_init: "lzw_inv gc_map (lzw_init min_code_size)"
  by (simp add: lzw_inv_def lzw_init_def)

text \<open>The same at the end of a run that returns, for the colours \<^verbatim>\<open>extract_image\<close> reshapes.\<close>

lemma decoded_colours_are_table_colours:
  assumes "decode_colours data = Inr colours"
    and "extract_global_colour_table data = Inr gc_map"
  shows "set colours \<subseteq> Colour ` set gc_map"
proof -
  from assms obtain min_code_size data_stream final where
    loop: "lzw_loop data_stream min_code_size gc_map (lzw_init min_code_size) = Inr final"
    and colours: "colours = image_data final"
    by (auto simp: decode_colours_def bind_err_Inr_iff)
  from lzw_loop_returns_at_eoi [OF loop] obtain n where
    "lzw_iter (Suc n) data_stream min_code_size gc_map (lzw_init min_code_size)
       = Inr (Break final)"
    by blast
  from lzw_iter_inv [OF lzw_inv_init this] colours show ?thesis
    by (simp add: lzw_inv_def flow_state_def)
qed

text \<open>
  C2, as stated, fails: the values emitted for the sample image are the four colours of
  the table, each a list of three integers, and not one of them is an integer below the
  table size.
\<close>

theorem sample_emits_colours_not_indices:
  "decode_colours gif2x2 = Inr [black, red, green, blue] \<and>
   \<not> list_ex (is_colour_index (length sample_gc_map))
        (map py_pixel [black, red, green, blue])"
  by (simp add: decode_colours_def gif2x2_inputs sample_loop after_eoi_def
        black_def red_def green_def blue_def)

text \<open>
  C2, amended: for every bit stream, minimum code size and colour table, whatever the
  decoder has emitted after any number of passes of its loop is an entry of the global
  colour table: each emitted value is the colour at some index below the table size
  (the colour itself, not the index).
\<close>

theorem emitted_pixels_are_table_colours:
  assumes "lzw_iter n data_stream min_code_size gc_map (lzw_init min_code_size) = Inr fl"
  shows "\<forall>p \<in> set (image_data (flow_state fl)). \<exists>i < length gc_map. p = Colour (gc_map ! i)"
proof
  fix p
  assume "p \<in> set (image_data (flow_state fl))"
  with lzw_iter_inv [OF lzw_inv_init assms] have "p \<in> Colour ` set gc_map"
    by (auto simp: lzw_inv_def)
  then show "\<exists>i < length gc_map. p = Colour (gc_map ! i)"
    by (auto simp: in_set_conv_nth)
qed

text \<open>C2, witness: the six passes over the sample stream, which end at EOI.\<close>

theorem emitted_pixels_are_table_colours_witness:
  "lzw_iter 6 sample_stream 2 sample_gc_map (lzw_init 2) = Inr (Break after_eoi) \<and>
   image_data (flow_state (Break after_eoi)) = [black, red, green, blue] \<and>
   set (image_data (flow_state (Break after_eoi))) \<subseteq> Colour ` set sample_gc_map"
proof -
  have "set (image_data (flow_state (Break after_eoi))) \<subseteq> Colour ` set sample_gc_map"
    using emitted_pixels_are_table_colours [OF sample_run(3)] by force
  moreover have "image_data (flow_state (Break after_eoi)) = [black, red, green, blue]"
    by (simp add: flow_state_def after_eoi_def)
  ultimately show ?thesis
    using sample_run(3) by - (intro conjI, assumption+)
qed

section \<open>The packed byte of the screen descriptor\<close>

text \<open>
  Where the text of \<^verbatim>\<open>bin\<close> has eight characters, that is for the packed bytes 128 to
  255, the fields read are the bit ranges of the published layout.
\<close>

lemma low3: "(m::nat) mod 8 = 4 * (m div 4 mod 2) + 2 * (m div 2 mod 2) + m mod 2"
proof -
  have a: "m mod 8 = 2 * (m div 2 mod 4) + m mod 2"
    using mod_mult2_eq [of m 2 4] by simp
  have b: "m div 2 mod 4 = 2 * (m div 4 mod 2) + m div 2 mod 2"
    using mod_mult2_eq [of "m div 2" 2 2] by (simp add: div_mult2_eq [symmetric])
  show ?thesis unfolding a b by simp
qed

lemma mid3: "(n::nat) div 16 mod 8 = 4 * (n div 64 mod 2) + 2 * (n div 32 mod 2) + n div 16 mod 2"
  using low3 [of "n div 16"] by (simp add: div_mult2_eq [symmetric])

lemma int_of_bit_char: "int_of_bit (bit_char m) = m mod 2"
  by (auto simp: int_of_bit_def bit_char_def)

lemma bin_str_8:
  assumes "128 \<le> n" "n < 256"
  shows "bin_str n = [bit_char (n div 128), bit_char (n div 64), bit_char (n div 32),
           bit_char (n div 16), bit_char (n div 8), bit_char (n div 4), bit_char (n div 2),
           bit_char n]"
proof -
  have d: "\<not> n < 2" "\<not> n div 2 < 2" "\<not> n div 4 < 2" "\<not> n div 8 < 2" "\<not> n div 16 < 2"
    "\<not> n div 32 < 2" "\<not> n div 64 < 2" "n div 128 = 1"
    using assms by auto
  have step: "\<And>m. \<not> m < 2 \<Longrightarrow> bin_str m = bin_str (m div 2) @ [bit_char m]"
    by (subst bin_str.simps) (simp add: bit_char_def)
  have last: "bin_str (n div 128) = [bit_char (n div 128)]"
    by (subst bin_str.simps) (simp add: d bit_char_def)
  have "bin_str n = bin_str (n div 2) @ [bit_char n]"
    using step d(1) by blast
  also have "bin_str (n div 2) = bin_str (n div 4) @ [bit_char (n div 2)]"
    using step [OF d(2)] by (simp add: div_mult2_eq [symmetric])
  also have "bin_str (n div 4) = bin_str (n div 8) @ [bit_char (n div 4)]"
    using step [OF d(3)] by (simp add: div_mult2_eq [symmetric])
  also have "bin_str (n div 8) = bin_str (n div 16) @ [bit_char (n div 8)]"
    using step [OF d(4)] by (simp add: div_mult2_eq [symmetric])
  also have "bin_str (n div 16) = bin_str (n div 32) @ [bit_char (n div 16)]"
    using step [OF d(5)] by (simp add: div_mult2_eq [symmetric])
  also have "bin_str (n div 32) = bin_str (n div 64) @ [bit_char (n div 32)]"
    using step [OF d(6)] by (simp add: div_mult2_eq [symmetric])
  also have "bin_str (n div 64) = bin_str (n div 128) @ [bit_char (n div 64)]"
    using step [OF d(7)] by (simp add: div_mult2_eq [symmetric])
  finally show ?thesis by (simp add: last)
qed

lemma screen_descriptor_top_bit_set:
  assumes len: "12 < length data" and top: "128 \<le> unat (data ! 10)"
  shows "extract_screen_descriptor data =
     Inr (from_bytes_little (slice data 6 8), from_bytes_little (slice data 8 10),
          packed_bits (unat (data ! 10)) 0 0, packed_bits (unat (data ! 10)) 1 3,
          packed_bits (unat (data ! 10)) 4 4, packed_bits (unat (data ! 10)) 5 7,
          unat (data ! 11), unat (data ! 12))"
proof -
  define n where "n = unat (data ! 10)"
  have lt: "n < 256" unfolding n_def using unsigned_less [of "data ! 10"] by simp
  have ge: "128 \<le> n" using top by (simp add: n_def)
  note pf = bin_str_8 [OF ge lt]
  have hi: "n div 128 mod 2 = n div 128" using ge lt by auto
  have fl: "int_at (bin_str n) 0 = Inr (packed_bits n 0 0)"
    by (simp add: pf int_at_def item_def int_of_bit_char packed_bits_def)
  have cr: "int_base2 (slice (bin_str n) 1 4) = Inr (packed_bits n 1 3)"
    by (simp add: pf slice_def int_base2_def int_of_bit_char packed_bits_def mid3)
  have so: "int_at (bin_str n) 4 = Inr (packed_bits n 4 4)"
    by (simp add: pf int_at_def item_def int_of_bit_char packed_bits_def)
  have sz: "int_base2 (slice (bin_str n) 5 8) = Inr (packed_bits n 5 7)"
    by (simp add: pf slice_def int_base2_def int_of_bit_char packed_bits_def low3)
  have items: "item data 11 = Inr (data ! 11)" "item data 12 = Inr (data ! 12)"
    "item data 10 = Inr (data ! 10)"
    using len by (simp_all add: item_def)
  show ?thesis
    unfolding extract_screen_descriptor_def Let_def items bind_err.simps n_def [symmetric]
      fl cr so sz ..
qed

text \<open>
  For a packed byte below 128 the text is shorter and starts with \<^verbatim>\<open>1\<close> unless the byte
  is 0: whenever the function returns at all, it returns the flag 1 where the layout has
  0. (Below 32, and at 0, it raises.)
\<close>

lemma bin_str_hd: "0 < n \<Longrightarrow> hd (bin_str n) = CHR ''1''"
proof (induction n rule: bin_str.induct)
  case (1 n)
  show ?case
  proof (cases "n < 2")
    case True
    with "1.prems" have "n = 1" by simp
    then show ?thesis by (subst bin_str.simps) simp
  next
    case False
    then have "0 < n div 2" by simp
    with "1.IH" False have "hd (bin_str (n div 2)) = CHR ''1''" by simp
    moreover have "bin_str n = bin_str (n div 2) @ [if n mod 2 = 0 then CHR ''0'' else CHR ''1'']"
      using False by (subst bin_str.simps) simp
    ultimately show ?thesis by (simp add: bin_str_nonempty)
  qed
qed

lemma screen_descriptor_top_bit_clear:
  assumes result: "extract_screen_descriptor data =
      Inr (width, height, gc_fl, cr, sort_fl, gc_size, bcolour_i, px_ratio)"
    and low: "unat (data ! 10) < 128"
  shows "gc_fl = 1 \<and> packed_bits (unat (data ! 10)) 0 0 = 0"
proof -
  let ?pf = "bin_str (unat (data ! 10))"
  have len: "12 < length data"
    by (rule screen_descriptor_length [OF result])
  then have items: "item data 11 = Inr (data ! 11)" "item data 12 = Inr (data ! 12)"
    "item data 10 = Inr (data ! 10)"
    by (simp_all add: item_def)
  from result have fl: "int_at ?pf 0 = Inr gc_fl"
    and cr: "int_base2 (slice ?pf 1 4) = Inr cr"
    unfolding extract_screen_descriptor_def Let_def items bind_err.simps
    by (auto simp: bind_err_Inr_iff)
  from cr have "slice ?pf 1 4 \<noteq> []"
    by (auto simp: int_base2_def split: if_splits)
  then have "1 < length ?pf" by (auto simp: slice_def)
  then have "unat (data ! 10) \<noteq> 0"
    using bin_str_zero by (metis One_nat_def length_Cons less_irrefl list.size(3))
  then have "hd ?pf = CHR ''1''" by (simp add: bin_str_hd)
  moreover from fl have "gc_fl = int_of_bit (hd ?pf)"
    using bin_str_nonempty [of "unat (data ! 10)"]
    by (auto simp: int_at_def item_def hd_conv_nth split: if_splits)
  ultimately have "gc_fl = 1" by (simp add: int_of_bit_def)
  moreover from low have "packed_bits (unat (data ! 10)) 0 0 = 0"
    by (simp add: packed_bits_def)
  ultimately show ?thesis by simp
qed

text \<open>
  C3: the claim asks for the published bit ranges at every value of the packed byte. At
  the value 0x70 (no global colour table, colour resolution 7) the text of
  \<^verbatim>\<open>bin\<close> has seven characters, every field is read one position too far to the
  right, and \<^verbatim>\<open>extract_screen_descriptor\<close> returns flag 1 and resolution 6 where the
  layout has flag 0 and resolution 7.
\<close>

theorem screen_descriptor_misreads_short_packed_byte:
  "extract_screen_descriptor (screen_only 0x70) = Inr (2, 2, 1, 6, 0, 0, 0, 0) \<and>
   (packed_bits 0x70 0 0, packed_bits 0x70 1 3, packed_bits 0x70 4 4, packed_bits 0x70 5 7)
     = (0, 7, 0, 0)"
  by (simp add: screen_only_def extract_screen_descriptor_def eval_simps packed_bits_def)

section \<open>The Clear code\<close>

text \<open>
  C4, as stated, fails: the first code of the sample stream is the Clear code, and after
  the pass that processes it the counter is 1, not 0. Lines 213 to 219 run after the
  Clear branch too and count the Clear code.
\<close>

theorem counter_is_one_after_clear:
  "read_code sample_stream (lzw_init 2) = Inr (length sample_gc_map) \<and>
   map_sum id (count \<circ> flow_state) (lzw_step sample_stream 2 sample_gc_map (lzw_init 2))
     = Inr 1"
  by code_simp

text \<open>
  C4, amended: after the pass that processes a Clear code, the code table is the fresh
  table, of length the global colour table size plus 2, the next code is the first after
  a reset, and nothing has been emitted for the Clear code. The Clear code itself is
  counted: when the minimum code size is at least 1 the counter is 1 and the code width
  is minimum code size plus 1; when it is 0 the count of 1 already equals
  \<open>2 ^ (code width - 1)\<close>, so the counter is 0 and the code width is 2.
\<close>

theorem clear_code_resets_decoder:
  assumes "read_code data_stream s = Inr (length gc_map)"
  shows "\<exists>s'. lzw_step data_stream min_code_size gc_map s = Inr (Next s') \<and>
     code_table s' = Some (fresh_table gc_map) \<and>
     length (fresh_table gc_map) = length gc_map + 2 \<and>
     first s' = Some True \<and> image_data s' = image_data s \<and>
     count s' = (if min_code_size = 0 then 0 else 1) \<and>
     code_size s' = (if min_code_size = 0 then 2 else min_code_size + 1)"
  using assms
  by (simp add: lzw_step_def Let_def lzw_tail_fields lzw_tail_code_size lzw_tail_count
        fresh_table_def one_eq_power_two)

text \<open>C4, witness: the first pass over the sample stream.\<close>

theorem clear_code_resets_decoder_witness:
  "read_code sample_stream (lzw_init 2) = Inr (length sample_gc_map) \<and>
   (\<exists>s'. lzw_step sample_stream 2 sample_gc_map (lzw_init 2) = Inr (Next s') \<and>
      code_table s' = Some (fresh_table sample_gc_map) \<and>
      length (fresh_table sample_gc_map) = length sample_gc_map + 2 \<and>
      first s' = Some True \<and> image_data s' = image_data (lzw_init 2) \<and>
      count s' = 1 \<and> code_size s' = 3)"
proof -
  have code: "read_code sample_stream (lzw_init 2) = Inr (length sample_gc_map)"
    by code_simp
  from clear_code_resets_decoder [OF code, of 2] code show ?thesis by simp
qed

section \<open>Codes past the end of the table\<close>

text \<open>
  C5, as stated, fails: in this file the fifth code is 10 while the table has 8 entries,
  so it is two past the length of the table, and \<^verbatim>\<open>extract_image\<close> returns an image.
  The code is handled by the \<^verbatim>\<open>else\<close> branch like a code equal to the length.
\<close>

theorem code_two_past_table_end_decodes:
  "image_stream gif_two_past = Inr (2, two_past_stream) \<and>
   lzw_iter 4 two_past_stream 2 sample_gc_map (lzw_init 2) = Inr (Next after_three_colours) \<and>
   map_option length (code_table after_three_colours) = Some 8 \<and>
   read_code two_past_stream after_three_colours = Inr 10 \<and>
   extract_image gif_two_past = Inr [[black, red], [green, green]]"
proof -
  have "map_option length (code_table after_three_colours) = Some 8"
    by (simp add: after_three_colours_def fresh_table_def sample_gc_map_def)
  with two_past_run show ?thesis by simp
qed

text \<open>
  One pass of the \<^verbatim>\<open>else\<close> branch from any state whose previous code is the index of a
  colour sequence.
\<close>

lemma unknown_code_pass:
  assumes "read_code data_stream s = Inr c"
    and "code_table s = Some tbl"
    and "length gc_map + 2 \<le> length tbl"
    and "length tbl \<le> c"
    and "previous_code s = Some prev"
    and "prev < length tbl"
    and "tbl ! prev = Seq (p # ps)"
  shows "\<exists>s'. lzw_step data_stream min_code_size gc_map s = Inr (Next s') \<and>
     image_data s' = image_data s @ p # ps @ [p] \<and>
     code_table s' = Some (tbl @ [Seq (p # ps @ [p])]) \<and>
     previous_code s' = Some c"
  using assms
  by (simp add: lzw_step_def lzw_unknown_def Let_def bound_def item_def lzw_tail_fields)

text \<open>
  Every state of a run satisfies \<open>run_ok\<close>: the table keeps its fresh prefix, and a pass
  of the \<^verbatim>\<open>else\<close> branch can only succeed when the next code is not the first after a
  reset, because right after a Clear code the previous entry is the string \<^verbatim>\<open>"CC"\<close>.
\<close>

lemma fresh_table_length: "length (fresh_table gc_map) = length gc_map + 2"
  by (simp add: fresh_table_def)

lemma fresh_prefix_length:
  assumes "take (length gc_map + 2) tbl = fresh_table gc_map"
  shows "length gc_map + 2 \<le> length tbl"
proof -
  have "length (take (length gc_map + 2) tbl) = length gc_map + 2"
    using assms by (simp add: fresh_table_length)
  then show ?thesis by simp
qed

lemma fresh_prefix_clear_entry:
  assumes "take (length gc_map + 2) tbl = fresh_table gc_map"
  shows "tbl ! length gc_map = Str ''CC''"
proof -
  have "tbl ! length gc_map = take (length gc_map + 2) tbl ! length gc_map"
    by simp
  also have "\<dots> = fresh_table gc_map ! length gc_map"
    using assms by simp
  also have "\<dots> = Str ''CC''"
    by (simp add: fresh_table_def nth_append)
  finally show ?thesis .
qed

lemma run_ok_step:
  assumes ok: "run_ok gc_map s"
    and step: "lzw_step data_stream min_code_size gc_map s = Inr fl"
  shows "run_ok gc_map (flow_state fl)"
proof -
  from step obtain c where c: "read_code data_stream s = Inr c"
    by (auto simp: lzw_step_def bind_err_Inr_iff)
  let ?s1 = "s\<lparr>start_b := start_b s + code_size s\<rparr>"
  consider (clear) "c = length gc_map" | (eoi) "c = length gc_map + 1"
    | (other) "c \<noteq> length gc_map" "c \<noteq> length gc_map + 1" by blast
  then show ?thesis
  proof cases
    case clear
    with step c show ?thesis
      by (auto simp: lzw_step_def Let_def run_ok_def flow_state_def lzw_tail_fields
            fresh_table_length)
  next
    case eoi
    with step c ok show ?thesis
      by (auto simp: lzw_step_def Let_def run_ok_def flow_state_def split: option.splits)
  next
    case other
    with step c obtain tbl where tbl: "code_table s = Some tbl"
      and branch: "(if c < length tbl then lzw_known tbl c ?s1 else lzw_unknown tbl c ?s1) = Inr fl"
      by (auto simp: lzw_step_def Let_def bound_def bind_err_Inr_iff split: option.splits)
    from ok tbl obtain is_first prev where
      pre: "take (length gc_map + 2) tbl = fresh_table gc_map"
      and names: "first s = Some is_first" "previous_code s = Some prev"
        "prev \<noteq> length gc_map + 1" "is_first \<longleftrightarrow> prev = length gc_map"
      by (auto simp: run_ok_def split: option.splits)
    note len = fresh_prefix_length [OF pre]
    have pre': "\<And>new. take (length gc_map + 2) (tbl @ [new]) = fresh_table gc_map"
      using pre len by simp
    show ?thesis
    proof (cases "c < length tbl")
      case True
      with branch have "lzw_known tbl c ?s1 = Inr fl" by simp
      with names other pre pre' tbl show ?thesis
        by (auto simp: lzw_known_def Let_def bound_def bind_err_Inr_iff run_ok_def
              flow_state_def lzw_tail_fields split: if_splits)
    next
      case False
      with branch have unk: "lzw_unknown tbl c ?s1 = Inr fl" by simp
      have "\<not> is_first"
      proof
        assume "is_first"
        with names have "prev = length gc_map" by simp
        with fresh_prefix_clear_entry [OF pre] len names unk show False
          by (auto simp: lzw_unknown_def bound_def bind_err_Inr_iff item_def)
      qed
      moreover from False len have "c \<noteq> length gc_map" "c \<noteq> length gc_map + 1" by auto
      ultimately show ?thesis
        using unk names pre' tbl
        by (auto simp: lzw_unknown_def bound_def bind_err_Inr_iff run_ok_def
              flow_state_def lzw_tail_fields)
    qed
  qed
qed

lemma run_ok_iter:
  assumes "lzw_iter n data_stream min_code_size gc_map (lzw_init min_code_size) = Inr fl"
  shows "run_ok gc_map (flow_state fl)"
  using assms
proof (induction n arbitrary: fl)
  case 0
  then show ?case by (auto simp: flow_state_def run_ok_def lzw_init_def)
next
  case (Suc n)
  from lzw_iter_Suc_Next [OF Suc.prems] show ?case
  proof (elim disjE exE conjE)
    fix s
    assume it: "lzw_iter n data_stream min_code_size gc_map (lzw_init min_code_size) = Inr (Next s)"
      and st: "lzw_step data_stream min_code_size gc_map s = Inr fl"
    from Suc.IH [OF it] have "run_ok gc_map s" by (simp add: flow_state_def)
    from run_ok_step [OF this st] show ?thesis .
  next
    fix s
    assume it: "lzw_iter n data_stream min_code_size gc_map (lzw_init min_code_size) = Inr (Break s)"
      and "fl = Break s"
    with Suc.IH [OF it] show ?thesis by simp
  qed
qed

text \<open>
  A pass that is not the first after a reset and finds the previous code at or past the
  end of the table raises IndexError, whatever code it reads other than Clear and EOI.
\<close>

lemma entry_first_error: "entry_first e = Inl err \<Longrightarrow> err = IndexError"
  by (cases e) (auto simp: item_def bind_err_Inl_iff split: if_splits)

lemma lzw_step_unknown:
  assumes "read_code data_stream s = Inr c" and "code_table s = Some tbl"
    and "length gc_map + 2 \<le> length tbl" and "length tbl \<le> c"
  shows "lzw_step data_stream min_code_size gc_map s =
           lzw_unknown tbl c (s\<lparr>start_b := start_b s + code_size s\<rparr>)"
  using assms by (simp add: lzw_step_def Let_def bound_def)

lemma stale_previous_code_raises:
  assumes code: "read_code data_stream s = Inr c2"
    and other: "c2 \<noteq> length gc_map" "c2 \<noteq> length gc_map + 1"
    and tbl: "code_table s = Some tbl"
    and names: "first s = Some False" "previous_code s = Some prev"
    and stale: "length tbl \<le> prev"
  shows "lzw_step data_stream min_code_size gc_map s = Inl IndexError"
proof (cases "c2 < length tbl")
  case True
  show ?thesis
  proof (cases "entry_first (tbl ! c2)")
    case (Inl err)
    with entry_first_error [OF Inl] code other tbl names True show ?thesis
      by (simp add: lzw_step_def Let_def bound_def lzw_known_def)
  next
    case (Inr b)
    with code other tbl names stale True show ?thesis
      by (simp add: lzw_step_def Let_def bound_def lzw_known_def item_def)
  qed
next
  case False
  with code other tbl names stale show ?thesis
    by (simp add: lzw_step_def Let_def bound_def lzw_unknown_def item_def)
qed

text \<open>
  C5, amended: a code at or past the length of the code table never raises a corruption
  error; it is handled by the \<^verbatim>\<open>else\<close> branch according to the previous code. Right
  after a Clear code the branch raises TypeError; with a previous code that is itself
  past the table it raises IndexError; otherwise the previous code's colour sequence
  followed by its first colour is emitted and appended to the table. For a code equal
  to the length of the table this is the KwKwK case: the code is then the index of the
  new entry. For a code strictly greater (for example two past) the pass succeeds in the
  same way, but the code, now the previous code, stays past the table, so the next pass
  raises IndexError whenever it reads a code other than the Clear and the EOI code.
\<close>

theorem code_past_table_end_is_kwkwk:
  assumes run: "lzw_iter n data_stream min_code_size gc_map (lzw_init min_code_size) = Inr (Next s)"
    and code: "read_code data_stream s = Inr c"
    and tbl: "code_table s = Some tbl"
    and past: "length tbl \<le> c"
  shows "\<exists>prev. previous_code s = Some prev \<and>
     (prev = length gc_map \<longrightarrow>
        lzw_step data_stream min_code_size gc_map s = Inl TypeError) \<and>
     (length tbl \<le> prev \<longrightarrow>
        lzw_step data_stream min_code_size gc_map s = Inl IndexError) \<and>
     (prev \<noteq> length gc_map \<and> prev < length tbl \<longrightarrow>
        (\<exists>seq s'. tbl ! prev = Seq seq \<and> seq \<noteq> [] \<and>
           lzw_step data_stream min_code_size gc_map s = Inr (Next s') \<and>
           image_data s' = image_data s @ seq @ [hd seq] \<and>
           code_table s' = Some (tbl @ [Seq (seq @ [hd seq])]) \<and>
           previous_code s' = Some c \<and>
           (c = length tbl \<longrightarrow> (tbl @ [Seq (seq @ [hd seq])]) ! c = Seq (seq @ [hd seq])) \<and>
           (length tbl < c \<longrightarrow>
              (\<forall>c2. read_code data_stream s' = Inr c2 \<and> c2 \<noteq> length gc_map \<and>
                    c2 \<noteq> length gc_map + 1 \<longrightarrow>
                 lzw_step data_stream min_code_size gc_map s' = Inl IndexError))))"
proof -
  from lzw_iter_inv [OF lzw_inv_init run] tbl have ok: "table_ok gc_map tbl"
    by (simp add: lzw_inv_def flow_state_def)
  from run_ok_iter [OF run] tbl obtain is_first prev where
    pre: "take (length gc_map + 2) tbl = fresh_table gc_map"
    and names: "first s = Some is_first" "previous_code s = Some prev"
      "prev \<noteq> length gc_map + 1" "is_first \<longleftrightarrow> prev = length gc_map"
    by (auto simp: run_ok_def flow_state_def split: option.splits)
  note len = fresh_prefix_length [OF pre]
  let ?s1 = "s\<lparr>start_b := start_b s + code_size s\<rparr>"
  note step = lzw_step_unknown [OF code tbl len past, of min_code_size]
  have clear: "lzw_step data_stream min_code_size gc_map s = Inl TypeError"
    if "prev = length gc_map"
    using that names len fresh_prefix_clear_entry [OF pre]
    by (simp add: step lzw_unknown_def bound_def item_def)
  have stale: "lzw_step data_stream min_code_size gc_map s = Inl IndexError"
    if "length tbl \<le> prev"
    using that names by (simp add: step lzw_unknown_def bound_def item_def)
  have good: "\<exists>seq s'. tbl ! prev = Seq seq \<and> seq \<noteq> [] \<and>
           lzw_step data_stream min_code_size gc_map s = Inr (Next s') \<and>
           image_data s' = image_data s @ seq @ [hd seq] \<and>
           code_table s' = Some (tbl @ [Seq (seq @ [hd seq])]) \<and>
           previous_code s' = Some c \<and>
           (c = length tbl \<longrightarrow> (tbl @ [Seq (seq @ [hd seq])]) ! c = Seq (seq @ [hd seq])) \<and>
           (length tbl < c \<longrightarrow>
              (\<forall>c2. read_code data_stream s' = Inr c2 \<and> c2 \<noteq> length gc_map \<and>
                    c2 \<noteq> length gc_map + 1 \<longrightarrow>
                 lzw_step data_stream min_code_size gc_map s' = Inl IndexError))"
    if inside: "prev \<noteq> length gc_map \<and> prev < length tbl"
  proof -
    from inside names have p: "prev < length tbl" "prev \<noteq> length gc_map"
      "prev \<noteq> length gc_map + 1" by simp_all
    from table_ok_known [OF ok p] obtain seq where
      seq: "tbl ! prev = Seq seq" "seq \<noteq> []" by blast
    let ?new = "Seq (seq @ [hd seq])"
    let ?s' = "lzw_tail c (?s1\<lparr>image_data := image_data ?s1 @ entry_items ?new,
                                 code_table := Some (tbl @ [?new])\<rparr>)"
    have first_colour: "item seq 0 = Inr (hd seq)"
      using seq(2) by (simp add: item_def hd_conv_nth)
    have result: "lzw_step data_stream min_code_size gc_map s = Inr (Next ?s')"
      using names p seq first_colour
      by (simp add: step lzw_unknown_def bound_def item_def)
    have fields: "image_data ?s' = image_data s @ seq @ [hd seq]"
      "code_table ?s' = Some (tbl @ [?new])" "previous_code ?s' = Some c"
      "first ?s' = Some False"
      using names p by (simp_all add: lzw_tail_fields)
    have kwkwk: "(tbl @ [?new]) ! c = ?new" if "c = length tbl"
      using that by simp
    have broken: "lzw_step data_stream min_code_size gc_map ?s' = Inl IndexError"
      if "length tbl < c" and c2: "read_code data_stream ?s' = Inr c2 \<and>
          c2 \<noteq> length gc_map \<and> c2 \<noteq> length gc_map + 1" for c2
    proof -
      from that(1) have "length (tbl @ [?new]) \<le> c" by simp
      from stale_previous_code_raises [OF _ _ _ fields(2) fields(4) fields(3) this] c2
      show ?thesis by blast
    qed
    from seq result fields kwkwk broken show ?thesis by blast
  qed
  from names(2) clear stale good show ?thesis by blast
qed

text \<open>
  C5, witness: the code 10 read with a table of 8 entries emits green twice, and the
  colour code 0 that follows raises IndexError.
\<close>

theorem code_past_table_end_is_kwkwk_witness:
  "lzw_iter 4 two_past_colour_stream 2 sample_gc_map (lzw_init 2)
     = Inr (Next after_three_colours) \<and>
   read_code two_past_colour_stream after_three_colours = Inr 10 \<and>
   lzw_step two_past_colour_stream 2 sample_gc_map after_three_colours
     = Inr (Next after_two_past) \<and>
   image_data after_two_past = image_data after_three_colours @ [green, green] \<and>
   read_code two_past_colour_stream after_two_past = Inr 0 \<and>
   lzw_step two_past_colour_stream 2 sample_gc_map after_two_past = Inl IndexError"
proof -
  let ?tbl = "fresh_table sample_gc_map @ [Seq [black, red], Seq [red, green]]"
  have tbl: "code_table after_three_colours = Some ?tbl"
    and prev: "previous_code after_three_colours = Some 2"
    by (simp_all add: after_three_colours_def)
  have len: "length ?tbl = 8"
    by (simp add: fresh_table_def sample_gc_map_def)
  then have past: "length ?tbl \<le> 10" by simp
  from code_past_table_end_is_kwkwk [OF two_past_colour_run(1) two_past_colour_run(2) tbl past]
  obtain seq s' where
    "lzw_step two_past_colour_stream 2 sample_gc_map after_three_colours = Inr (Next s')"
    and broken: "\<forall>c2. read_code two_past_colour_stream s' = Inr c2 \<and>
       c2 \<noteq> length sample_gc_map \<and> c2 \<noteq> length sample_gc_map + 1 \<longrightarrow>
       lzw_step two_past_colour_stream 2 sample_gc_map s' = Inl IndexError"
    using prev len by (auto simp: sample_gc_map_length)
  with two_past_colour_run(3) have "s' = after_two_past" by simp
  with broken two_past_colour_run(4)
  have err: "lzw_step two_past_colour_stream 2 sample_gc_map after_two_past = Inl IndexError"
    by (simp add: sample_gc_map_length)
  have emitted: "image_data after_two_past = image_data after_three_colours @ [green, green]"
    by (simp add: after_two_past_def after_three_colours_def)
  from two_past_colour_run(1) two_past_colour_run(2) two_past_colour_run(3) emitted
    two_past_colour_run(4) err
  show ?thesis
    by - (intro conjI, assumption+)
qed

section \<open>Truncated input\<close>




section \<open>The grid\<close>

lemma mod_step:
  assumes "index mod width = (n + 1) mod width"
  shows "(index + 1) mod width = (n + 1 + 1) mod (width::nat)"
proof -
  have "(index + 1) mod width = Suc (index mod width) mod width"
    by (simp add: mod_Suc_eq)
  also have "\<dots> = Suc ((n + 1) mod width) mod width"
    using assms by simp
  also have "\<dots> = (n + 1 + 1) mod width"
    by (simp add: mod_Suc_eq)
  finally show ?thesis .
qed

lemma reshape_rows:
  assumes "0 < width" and "length row < width"
    and "index mod width = (length row + 1) mod width"
  shows "\<exists>rows. reshape width index row image' colours = Inr (image' @ rows) \<and>
           (\<forall>r \<in> set rows. length r = width) \<and>
           length rows = (length row + length colours) div width \<and>
           concat rows = take (width * ((length row + length colours) div width)) (row @ colours)"
  using assms(2,3)
proof (induction colours arbitrary: index row image')
  case Nil
  then show ?case by simp
next
  case (Cons color rest)
  note step = mod_step [OF Cons.prems(2)]
  show ?case
  proof (cases "index mod width = 0")
    case True
    then have "(length row + 1) mod width = 0"
      using Cons.prems(2) by simp
    then have full: "length row + 1 = width"
      using Cons.prems(1) by (cases "length row + 1 < width") auto
    have "(index + 1) mod width = Suc (index mod width) mod width"
      by (simp add: mod_Suc_eq)
    with True have "(index + 1) mod width = (length ([]::pixel list) + 1) mod width"
      by simp
    from Cons.IH [OF _ this, of "image' @ [row @ [color]]"] assms(1)
    obtain rows where rows:
      "reshape width (index + 1) [] (image' @ [row @ [color]]) rest
         = Inr ((image' @ [row @ [color]]) @ rows)"
      "\<forall>r \<in> set rows. length r = width"
      "length rows = length rest div width"
      "concat rows = take (width * (length rest div width)) rest"
      by auto
    have e: "length row + length (color # rest) = width + length rest"
      using full by simp
    have d: "(length row + length (color # rest)) div width = Suc (length rest div width)"
      unfolding e using assms(1) by (simp add: div_add_self1)
    have len: "length (row @ [color]) = width"
      using full by simp
    have "reshape width index row image' (color # rest) = Inr (image' @ (row @ [color]) # rows)"
      using rows(1) True assms(1) by simp
    moreover have "\<forall>r \<in> set ((row @ [color]) # rows). length r = width"
      using rows(2) len by simp
    moreover have "length ((row @ [color]) # rows) = (length row + length (color # rest)) div width"
      using rows(3) d by simp
    moreover have "concat ((row @ [color]) # rows) =
        take (width * ((length row + length (color # rest)) div width)) (row @ color # rest)"
    proof -
      have "take (width * Suc (length rest div width)) ((row @ [color]) @ rest) =
          (row @ [color]) @ take (width * (length rest div width)) rest"
        using len by (simp del: append_assoc)
      then show ?thesis using rows(4) d by simp
    qed
    ultimately show ?thesis by blast
  next
    case False
    then have "(length row + 1) mod width \<noteq> 0"
      using Cons.prems(2) by simp
    then have "length row + 1 \<noteq> width" by auto
    with Cons.prems(1) have short: "length (row @ [color]) < width" by simp
    from step have "(index + 1) mod width = (length (row @ [color]) + 1) mod width"
      by simp
    from Cons.IH [OF short this, of image'] False assms(1)
    show ?thesis by simp
  qed
qed

text \<open>
  C7, as stated, fails: five colours and a width of 2 give two rows and no error; the
  fifth colour is dropped.
\<close>

theorem partial_row_is_dropped:
  "length [black, red, green, green, green] mod 2 \<noteq> 0 \<and>
   reshape 2 1 [] [] [black, red, green, green, green] = Inr [[black, red], [green, green]]"
  by simp

text \<open>
  C7, amended: for a positive width the grid builder returns rows that all have the
  width of the image descriptor, as many as the width goes into the number of colours,
  holding the colours in order; colours left over after the last full row are dropped
  and no error is raised. When the width divides the number of colours, the number of
  rows times the width is the number of colours and no colour is lost. A width of 0
  raises ZeroDivisionError unless there is no colour at all.
\<close>

theorem reshape_rows_of_width:
  "(width = 0 \<longrightarrow>
      reshape width 1 [] [] colours = (if colours = [] then Inr [] else Inl ZeroDivisionError)) \<and>
   (0 < width \<longrightarrow>
      (\<exists>rows. reshape width 1 [] [] colours = Inr rows \<and>
         (\<forall>r \<in> set rows. length r = width) \<and>
         length rows = length colours div width \<and>
         concat rows = take (width * (length colours div width)) colours \<and>
         (length colours mod width = 0 \<longrightarrow>
            length rows * width = length colours \<and> concat rows = colours)))"
proof (intro conjI impI)
  assume "width = 0"
  then show "reshape width 1 [] [] colours =
      (if colours = [] then Inr [] else Inl ZeroDivisionError)"
    by (cases colours) simp_all
next
  assume pos: "0 < width"
  have "(1::nat) mod width = (length ([]::pixel list) + 1) mod width" by simp
  from reshape_rows [OF pos _ this, of "[]" colours] pos
  obtain rows where rows: "reshape width 1 [] [] colours = Inr rows"
    "\<forall>r \<in> set rows. length r = width"
    "length rows = length colours div width"
    "concat rows = take (width * (length colours div width)) colours"
    by auto
  have "length colours mod width = 0 \<longrightarrow>
      length rows * width = length colours \<and> concat rows = colours"
  proof
    assume "length colours mod width = 0"
    then have "width dvd length colours"
      by (simp add: dvd_eq_mod_eq_0)
    then have "width * (length colours div width) = length colours"
      by (rule dvd_mult_div_cancel)
    with rows show "length rows * width = length colours \<and> concat rows = colours"
      by (simp add: mult.commute)
  qed
  with rows show "\<exists>rows. reshape width 1 [] [] colours = Inr rows \<and>
         (\<forall>r \<in> set rows. length r = width) \<and>
         length rows = length colours div width \<and>
         concat rows = take (width * (length colours div width)) colours \<and>
         (length colours mod width = 0 \<longrightarrow>
            length rows * width = length colours \<and> concat rows = colours)"
    by - (rule exI [of _ rows], simp)
qed

text \<open>C7, witness: five colours at width 2, and one colour at width 0.\<close>

theorem reshape_rows_of_width_witness:
  "(0::nat) < 2 \<and>
   (\<exists>rows. reshape 2 1 [] [] [black, red, green, green, green] = Inr rows \<and>
      (\<forall>r \<in> set rows. length r = 2) \<and> length rows = 2 \<and>
      concat rows = [black, red, green, green]) \<and>
   reshape 0 1 [] [] [black] = Inl ZeroDivisionError"
  using reshape_rows_of_width [of 2 "[black, red, green, green, green]"]
    reshape_rows_of_width [of 0 "[black]"]
  by simp

section \<open>A missing image separator\<close>







section \<open>The code width between two Clear codes\<close>

text \<open>
  C9: along a run of the decoder, from the state at the head of pass \<open>i + 1\<close> to the
  state at the head of pass \<open>j + 1\<close>, if none of the codes processed in between is the
  Clear code then the code width has not decreased; and over one such pass it grows by
  exactly one when the counter reaches \<open>2 ^ (code width - 1)\<close> and is unchanged
  otherwise. Only the Clear branch assigns it another value.
\<close>

theorem code_size_grows_between_clears:
  assumes "lzw_iter i data_stream min_code_size gc_map s0 = Inr (Next si)"
    and "lzw_iter j data_stream min_code_size gc_map s0 = Inr (Next sj)"
    and "i \<le> j"
    and "\<forall>k sk. i \<le> k \<and> k < j \<and>
           lzw_iter k data_stream min_code_size gc_map s0 = Inr (Next sk) \<longrightarrow>
           read_code data_stream sk \<noteq> Inr (length gc_map)"
  shows "code_size si \<le> code_size sj \<and>
         (j = Suc i \<longrightarrow>
            code_size sj = (if count si + 1 = 2 ^ (code_size si - 1)
                            then code_size si + 1 else code_size si))"
proof -
  have mono: "code_size si \<le> code_size sj"
    using assms(2-4)
  proof (induction j arbitrary: sj)
    case 0
    with assms(1) show ?case by simp
  next
    case (Suc j)
    show ?case
    proof (cases "i = Suc j")
      case True
      with Suc.prems(1) assms(1) show ?thesis by simp
    next
      case False
      with Suc.prems(2) have le: "i \<le> j" by simp
      from lzw_iter_Suc_Next [OF Suc.prems(1)]
      obtain s where it: "lzw_iter j data_stream min_code_size gc_map s0 = Inr (Next s)"
        and st: "lzw_step data_stream min_code_size gc_map s = Inr (Next sj)"
        by auto
      have noclear: "read_code data_stream s \<noteq> Inr (length gc_map)"
        using Suc.prems(3) le it by auto
      have earlier: "\<forall>k sk. i \<le> k \<and> k < j \<and>
           lzw_iter k data_stream min_code_size gc_map s0 = Inr (Next sk) \<longrightarrow>
           read_code data_stream sk \<noteq> Inr (length gc_map)"
      proof (intro allI impI)
        fix k sk
        assume a: "i \<le> k \<and> k < j \<and>
           lzw_iter k data_stream min_code_size gc_map s0 = Inr (Next sk)"
        then have "k < Suc j" by simp
        with a Suc.prems(3) show "read_code data_stream sk \<noteq> Inr (length gc_map)"
          by blast
      qed
      have "code_size si \<le> code_size s"
        by (rule Suc.IH [OF it le earlier])
      moreover have "code_size s \<le> code_size sj"
        using lzw_step_code_size [OF st noclear] by simp
      ultimately show ?thesis by simp
    qed
  qed
  have one: "code_size sj = (if count si + 1 = 2 ^ (code_size si - 1)
                            then code_size si + 1 else code_size si)" if "j = Suc i"
  proof -
    from lzw_iter_Suc_Next [of i data_stream min_code_size gc_map s0 "Next sj"] assms(1,2) that
    have st: "lzw_step data_stream min_code_size gc_map si = Inr (Next sj)"
      by auto
    have "read_code data_stream si \<noteq> Inr (length gc_map)"
      using assms(4) assms(1) that by auto
    from lzw_step_code_size [OF st this] show ?thesis .
  qed
  from mono one show ?thesis by blast
qed

text \<open>
  C9, witness: in the sample, the passes 2 to 4 process the codes 0, 1 and 2; the width is
  3 after the Clear code and 4 after the code 2.
\<close>

theorem code_size_grows_between_clears_witness:
  "lzw_iter 1 sample_stream 2 sample_gc_map (lzw_init 2) = Inr (Next after_clear) \<and>
   lzw_iter 4 sample_stream 2 sample_gc_map (lzw_init 2) = Inr (Next after_three_colours) \<and>
   code_size after_clear = 3 \<and> code_size after_three_colours = 4 \<and>
   code_size after_clear \<le> code_size after_three_colours"
proof -
  have noclear: "\<forall>k sk. 1 \<le> k \<and> k < 4 \<and>
      lzw_iter k sample_stream 2 sample_gc_map (lzw_init 2) = Inr (Next sk) \<longrightarrow>
      read_code sample_stream sk \<noteq> Inr (length sample_gc_map)"
  proof (intro allI impI)
    fix k sk
    assume a: "1 \<le> k \<and> k < 4 \<and>
      lzw_iter k sample_stream 2 sample_gc_map (lzw_init 2) = Inr (Next sk)"
    then have "k = 1 \<or> k = 2 \<or> k = 3" by auto
    with a sample_codes show "read_code sample_stream sk \<noteq> Inr (length sample_gc_map)"
      by (auto simp: flow_state_def sample_gc_map_length)
  qed
  have "(1::nat) \<le> 4" by simp
  from code_size_grows_between_clears [OF sample_run(1) sample_run(2) this noclear]
  have le: "code_size after_clear \<le> code_size after_three_colours"
    by (rule conjunct1)
  have widths: "code_size after_clear = 3" "code_size after_three_colours = 4"
    by (simp_all add: after_clear_def after_three_colours_def)
  from sample_run(1) sample_run(2) widths le show ?thesis
    by - (intro conjI, assumption+)
qed

section \<open>The first code of the stream\<close>





end
